theory Spec2Isabelle
  imports Main
begin

section \<open>JavaScript strings\<close>

text \<open>
  A JavaScript string is a sequence of code units. It is modelled as a \<open>string\<close>, one
  \<open>char\<close> for each code unit, which covers the code units \<open>0x00\<close> to \<open>0xFF\<close>.
  The operations below are the ones the three actions call on strings:
  \<open>startsWith\<close>, \<open>endsWith\<close>, \<open>includes\<close>, \<open>split\<close>, \<open>join\<close> and
  \<open>toLowerCase\<close>.
\<close>

fun startsWith :: "string \<Rightarrow> string \<Rightarrow> bool" where
  "startsWith s [] = True"
| "startsWith [] (p # ps) = False"
| "startsWith (c # cs) (p # ps) = (c = p \<and> startsWith cs ps)"

definition endsWith :: "string \<Rightarrow> string \<Rightarrow> bool" where
  "endsWith s suffix = startsWith (rev s) (rev suffix)"

fun includes_str :: "string \<Rightarrow> string \<Rightarrow> bool" where
  "includes_str [] sub = (sub = [])"
| "includes_str (c # cs) sub = (startsWith (c # cs) sub \<or> includes_str cs sub)"

text \<open>
  \<open>s.split(sep)\<close>: the pieces of \<open>s\<close> between the occurrences of \<open>sep\<close>, found from
  the left and not overlapping; with the empty separator, the code units one by one.
\<close>

function split_from :: "string \<Rightarrow> string \<Rightarrow> string \<Rightarrow> string list" where
  "split_from sep cur [] = [cur]"
| "split_from sep cur (c # cs) =
     (if sep \<noteq> [] \<and> startsWith (c # cs) sep
      then cur # split_from sep [] (drop (length sep) (c # cs))
      else split_from sep (cur @ [c]) cs)"
  by pat_completeness auto

termination
  by (relation "measure (\<lambda>(sep, cur, s). length s)") (auto simp: neq_Nil_conv)

definition split_str :: "string \<Rightarrow> string \<Rightarrow> string list" where
  "split_str s sep = (if sep = [] then map (\<lambda>c. [c]) s else split_from sep [] s)"

fun join :: "string list \<Rightarrow> string \<Rightarrow> string" where
  "join [] sep = []"
| "join [x] sep = x"
| "join (x # y # ys) sep = x @ sep @ join (y # ys) sep"

text \<open>
  \<open>toLowerCase\<close> on the code units below \<open>0x100\<close>: the letters \<open>A\<close> to \<open>Z\<close> and the
  capital letters of Latin-1 (\<open>0xC0\<close> to \<open>0xDE\<close> without the multiplication sign
  \<open>0xD7\<close>) move up by \<open>0x20\<close>, every other code unit stays.
\<close>

definition lower_unit :: "char \<Rightarrow> char" where
  "lower_unit c =
     (let n = (of_char c :: nat)
      in if (65 \<le> n \<and> n \<le> 90) \<or> (192 \<le> n \<and> n \<le> 222 \<and> n \<noteq> 215)
         then char_of (n + 32) else c)"

definition toLowerCase :: "string \<Rightarrow> string" where
  "toLowerCase s = map lower_unit s"

text \<open>
  The class \<open>\s\<close> of a regular expression, on the code units below \<open>0x100\<close>: tab, line
  feed, vertical tab, form feed, carriage return, space and the no-break space.
\<close>

definition is_space :: "char \<Rightarrow> bool" where
  "is_space c = (c = CHR 0x09 \<or> c = CHR 0x0A \<or> c = CHR 0x0B \<or> c = CHR 0x0C
                 \<or> c = CHR 0x0D \<or> c = CHR 0x20 \<or> c = CHR 0xA0)"

section \<open>sta-import-zip: the manifest scanner\<close>

text \<open>
  \<open>line.match(/^\s*<filter\s+root="([^"]+)"><\/filter>\s*$/)\<close>, returning the first
  group. No part of the expression can match in two ways (\<open><\<close> and \<open>r\<close> are not white
  space, and the group stops at the first double quote), so the matcher reads the line
  from the left without backtracking.
\<close>

definition match_filter_line :: "string \<Rightarrow> string option" where
  "match_filter_line line =
     (let s1 = dropWhile is_space line in
      if \<not> startsWith s1 ''<filter'' then None
      else let s2 = drop (length ''<filter'') s1; s3 = dropWhile is_space s2 in
      if s3 = s2 then None
      else if \<not> startsWith s3 ''root=\"'' then None
      else let s4 = drop (length ''root=\"'') s3;
               p = takeWhile (\<lambda>c. c \<noteq> CHR 0x22) s4;
               s5 = dropWhile (\<lambda>c. c \<noteq> CHR 0x22) s4 in
      if p = [] then None
      else if \<not> startsWith s5 ''\"></filter>'' then None
      else if list_all is_space (drop (length ''\"></filter>'') s5) then Some p
      else None)"

text \<open>
  The language of the same regular expression, written as the concatenation it denotes:
  \<open>filter_line line p\<close> holds when the whole line matches with \<open>p\<close> in the group.
\<close>

definition filter_line :: "string \<Rightarrow> string \<Rightarrow> bool" where
  "filter_line line p \<longleftrightarrow>
     (\<exists>ws1 ws2 ws3.
        line = ws1 @ ''<filter'' @ ws2 @ ''root=\"'' @ p @ ''\"></filter>'' @ ws3
        \<and> list_all is_space ws1
        \<and> ws2 \<noteq> [] \<and> list_all is_space ws2
        \<and> p \<noteq> [] \<and> list_all (\<lambda>c. c \<noteq> CHR 0x22) p
        \<and> list_all is_space ws3)"

text \<open>The loop of \<open>getFilterPathsSimple\<close> over the lines, pushing each match.\<close>

fun collect_paths :: "string list \<Rightarrow> string list \<Rightarrow> string list" where
  "collect_paths [] paths = paths"
| "collect_paths (line # lines) paths =
     (case match_filter_line line of
        Some p \<Rightarrow> collect_paths lines (paths @ [p])
      | None \<Rightarrow> collect_paths lines paths)"

definition getFilterPathsSimple :: "string \<Rightarrow> string list" where
  "getFilterPathsSimple xmlString = collect_paths (split_str xmlString ''\<newline>'') []"

section \<open>sta-import-zip: the platform and the world\<close>

text \<open>
  What the action reads from outside itself is a parameter: the functions of Node's
  \<open>path\<close>, \<open>os\<close>, \<open>fs\<close> and \<open>URL\<close>, the answer of \<open>fetch\<close>, what
  \<open>unzipper.Open.file\<close> finds in a file, whether the stream of an entry fails, what
  \<open>unzipper.ParseOne\<close> finds of an entry in a file (nothing when the file cannot be read
  or holds no such entry), and the working directory of the process. Every call that
  can throw has its failure as a possible answer.
\<close>

datatype entry_type = Directory | File

record archive_entry =
  path :: string
  type :: entry_type

record response =
  ok :: bool
  status :: nat
  statusText :: string
  body_complete :: bool

record platform =
  path_join :: "string \<Rightarrow> string \<Rightarrow> string"
  path_dirname :: "string \<Rightarrow> string"
  tmpdir :: string
  url_valid :: "string \<Rightarrow> bool"
  mkdtempSync :: "string \<Rightarrow> string option"
  mkdir_fails :: "string \<Rightarrow> bool"
  write_fails :: "string \<Rightarrow> bool"
  unlink_fails :: "string \<Rightarrow> bool"
  fetch :: "string \<Rightarrow> response option"
  open_zip :: "string \<Rightarrow> archive_entry list option"
  stream_fails :: "string \<Rightarrow> bool"
  parse_one :: "string \<Rightarrow> string \<Rightarrow> string option"
  read_fails :: "string \<Rightarrow> bool"
  cwd :: string
  path_isAbsolute :: "string \<Rightarrow> bool"

datatype error =
    InvalidDownloadUrl string
  | InvalidURL string
  | FsError string
  | FetchRejected string
  | DownloadStatus nat string
  | StreamError string
  | InvalidArchive string
  | FailedToDownload error
  | FailedToExtract error
  | UncaughtError string

text \<open>
  An \<open>'error'\<close> event of a stream that has no listener for it is thrown out of the
  event loop: no \<open>catch\<close> and no \<open>finally\<close> of the action runs, the process ends there.
\<close>

fun uncaught :: "error \<Rightarrow> bool" where
  "uncaught (UncaughtError p) = True"
| "uncaught e = False"

datatype message =
    TempDirCreated string string
  | Downloaded string nat
  | CpZip string
  | ExtractionProgress nat nat nat
  | CurrentPath string
  | Extracted string
  | CouldNotDelete string
  | ErrorMessage error
  | ManifestExtracted
  | FilterContent string
  | ErrorReadingFile string
  | ErrorExtracting string

datatype output_value =
    OutString string
  | OutNumber nat
  | OutError error
  | OutPaths "string list"

datatype effect =
    Info message
  | Warning message
  | SetOutput string output_value
  | FetchCall string
  | ConsoleLog message
  | ConsoleError message

text \<open>
  A stream pipeline that is started and not awaited: source file, entry looked for in
  it, and the file the entry is written to.
\<close>

datatype pipeline = ParseOne string string string

text \<open>
  The world the action acts on: the files and directories that exist, named by the
  path strings given to \<open>fs\<close>; the calls to \<open>core.info\<close>, \<open>core.warning\<close>,
  \<open>core.setOutput\<close>, \<open>fetch\<close>, \<open>console.log\<close> and \<open>console.error\<close> made so far, in
  order; the pipelines started and left to the event loop; and the text of the files
  the action writes and reads back.
\<close>

record world =
  files :: "string set"
  dirs :: "string set"
  log :: "effect list"
  detached :: "pipeline list"
  texts :: "string \<Rightarrow> string option"

definition emit :: "effect list \<Rightarrow> world \<Rightarrow> world" where
  "emit es w = w\<lparr>log := log w @ es\<rparr>"

definition CONTENT_DIR_NAME :: string where
  "CONTENT_DIR_NAME = ''contents''"

definition ZIP_NAME :: string where
  "ZIP_NAME = ''import.zip''"

text \<open>A string in a condition: the empty string counts as false.\<close>

definition truthy :: "string \<Rightarrow> bool" where
  "truthy s = (s \<noteq> [])"

section \<open>sta-import-zip: the stages\<close>

definition createTempDirectory :: "platform \<Rightarrow> world \<Rightarrow> (error + string) \<times> world" where
  "createTempDirectory pf w =
     (let tempDirPrefix = path_join pf (tmpdir pf) ''sta-'' in
      case mkdtempSync pf tempDirPrefix of
        None \<Rightarrow> (Inl (FsError tempDirPrefix), w)
      | Some tempDir \<Rightarrow>
          let w1 = w\<lparr>dirs := insert tempDir (dirs w)\<rparr>;
              contentsDir = path_join pf tempDir CONTENT_DIR_NAME in
          if mkdir_fails pf contentsDir then (Inl (FsError contentsDir), w1)
          else (Inr tempDir,
                emit [Info (TempDirCreated tempDir contentsDir)]
                  (w1\<lparr>dirs := insert contentsDir (dirs w1)\<rparr>)))"

definition fetchZip :: "platform \<Rightarrow> string \<Rightarrow> string \<Rightarrow> world \<Rightarrow> (error + unit) \<times> world" where
  "fetchZip pf downloadUrl zipDestination w =
     (let w1 = emit [FetchCall downloadUrl] w in
      case fetch pf downloadUrl of
        None \<Rightarrow> (Inl (FetchRejected downloadUrl), w1)
      | Some response \<Rightarrow>
          if \<not> ok response
          then (Inl (DownloadStatus (status response) (statusText response)), w1)
          else if write_fails pf zipDestination
          then (Inl (FailedToDownload (FsError zipDestination)), w1)
          else let w2 = w1\<lparr>files := insert zipDestination (files w1)\<rparr> in
          if \<not> body_complete response
          then (Inl (FailedToDownload (StreamError zipDestination)), w2)
          else (case open_zip pf zipDestination of
                  None \<Rightarrow> (Inl (FailedToDownload (InvalidArchive zipDestination)), w2)
                | Some directory \<Rightarrow>
                    (Inr (), emit [Info (Downloaded zipDestination (length directory))] w2)))"

text \<open>The variables of the loop of \<open>extractZip\<close>.\<close>

record extract_state =
  extractedFiles :: nat
  nextProgress :: nat
  zipFilePath :: "string option"

text \<open>Lines 102 to 106: the test for a nested archive, on the entry about to be written.\<close>

definition note_zip :: "archive_entry \<Rightarrow> extract_state \<Rightarrow> world \<Rightarrow> extract_state \<times> world" where
  "note_zip entry s w =
     (if extractedFiles s < 3 \<and> endsWith (toLowerCase (path entry)) ''.zip''
      then (s\<lparr>zipFilePath := Some (path entry)\<rparr>,
            emit [SetOutput ''xwalk_zip'' (OutString (path entry)), Info (CpZip (path entry))] w)
      else (s, w))"

text \<open>
  Lines 108 to 119: the directory is made, or the file written in full. In
  \<open>entry.stream().pipe(writable).on('finish', resolve).on('error', reject)\<close> both
  listeners are on \<open>writable\<close>, which is what \<open>pipe\<close> gives back: an error of the file
  being written rejects the promise and is thrown into the \<open>catch\<close> of \<open>extractZip\<close>; an
  error of the entry's own stream has no listener, and ends the process with the file
  begun.
\<close>

definition write_entry :: "platform \<Rightarrow> string \<Rightarrow> archive_entry \<Rightarrow> world \<Rightarrow> (error + unit) \<times> world" where
  "write_entry pf fullPath entry w =
     (if type entry = Directory
      then (if mkdir_fails pf fullPath then (Inl (FsError fullPath), w)
            else (Inr (), w\<lparr>dirs := insert fullPath (dirs w)\<rparr>))
      else (let parent = path_dirname pf fullPath in
            if mkdir_fails pf parent then (Inl (FsError parent), w)
            else let w1 = w\<lparr>dirs := insert parent (dirs w)\<rparr> in
            if write_fails pf fullPath then (Inl (FsError fullPath), w1)
            else let w2 = w1\<lparr>files := insert fullPath (files w1)\<rparr> in
            if stream_fails pf (path entry) then (Inl (UncaughtError (path entry)), w2)
            else (Inr (), w2)))"

text \<open>
  Lines 121 to 126. The percentage is \<open>Math.floor((extractedFiles / totalFiles) * 100)\<close>;
  it is taken here as the whole part of the exact quotient. The two agree at every
  comparison with a multiple of twenty, the double nearest to \<open>k / 5\<close> times one hundred
  being \<open>20 k\<close> exactly.
\<close>

definition report_progress :: "nat \<Rightarrow> extract_state \<Rightarrow> world \<Rightarrow> extract_state \<times> world" where
  "report_progress totalFiles s w =
     (let s1 = s\<lparr>extractedFiles := extractedFiles s + 1\<rparr>;
          progress = (extractedFiles s1 * 100) div totalFiles in
      if progress \<ge> nextProgress s1
      then (s1\<lparr>nextProgress := nextProgress s1 + 20\<rparr>,
            emit [Info (ExtractionProgress progress (extractedFiles s1) totalFiles)] w)
      else (s1, w))"

fun extract_entries ::
  "platform \<Rightarrow> string \<Rightarrow> nat \<Rightarrow> archive_entry list \<Rightarrow> extract_state \<Rightarrow> world
     \<Rightarrow> (error + extract_state) \<times> world" where
  "extract_entries pf contentsDir totalFiles [] s w = (Inr s, w)"
| "extract_entries pf contentsDir totalFiles (entry # rest) s w =
     (let fullPath = path_join pf contentsDir (path entry) in
      case note_zip entry s w of (s1, w1) \<Rightarrow>
        (case write_entry pf fullPath entry w1 of
           (Inl e, w2) \<Rightarrow> (Inl e, w2)
         | (Inr u, w2) \<Rightarrow>
             (case report_progress totalFiles s1 w2 of (s3, w3) \<Rightarrow>
                extract_entries pf contentsDir totalFiles rest s3 w3)))"

text \<open>Lines 129 to 157: the manifest scan is started on the candidate and not awaited.\<close>

definition start_scan :: "platform \<Rightarrow> string \<Rightarrow> string option \<Rightarrow> world \<Rightarrow> world" where
  "start_scan pf contentsDir candidate w =
     (case candidate of
        None \<Rightarrow> w
      | Some z \<Rightarrow>
          if truthy z
          then (let contentPackageZipPath = path_join pf contentsDir z;
                    w1 = emit [Info (CurrentPath contentPackageZipPath)] w
                in w1\<lparr>detached := detached w1 @
                     [ParseOne contentPackageZipPath ''META-INF/vault/filter.xml'' ''filter.xml'']\<rparr>)
          else w)"

text \<open>Lines 97 to 99: the variables as the loop is entered.\<close>

definition initial_state :: extract_state where
  "initial_state = \<lparr>extractedFiles = 0, nextProgress = 20, zipFilePath = None\<rparr>"

definition extractZip :: "platform \<Rightarrow> string \<Rightarrow> string \<Rightarrow> world \<Rightarrow> (error + nat) \<times> world" where
  "extractZip pf zipPath contentsDir w =
     (case open_zip pf zipPath of
        None \<Rightarrow> (Inl (FailedToExtract (InvalidArchive zipPath)), w)
      | Some directory \<Rightarrow>
          let totalFiles = length directory in
          (case extract_entries pf contentsDir totalFiles directory initial_state w of
             (Inl e, w1) \<Rightarrow> (if uncaught e then Inl e else Inl (FailedToExtract e), w1)
           | (Inr s, w1) \<Rightarrow>
               (Inr totalFiles,
                emit [Info (Extracted contentsDir)]
                  (start_scan pf contentsDir (zipFilePath s) w1))))"

text \<open>
  The \<open>try\<close> block of \<open>run\<close>. It gives back, with its result, the value the variable
  \<open>zipDestination\<close> has when the block is left.
\<close>

definition run_try :: "platform \<Rightarrow> string \<Rightarrow> world \<Rightarrow> (error + unit) \<times> string option \<times> world" where
  "run_try pf downloadUrl w =
     (if \<not> includes_str downloadUrl ''spacecat''
      then (Inl (InvalidDownloadUrl downloadUrl), None, w)
      else if \<not> url_valid pf downloadUrl
      then (Inl (InvalidURL downloadUrl), None, w)
      else (case createTempDirectory pf w of
        (Inl e, w1) \<Rightarrow> (Inl e, None, w1)
      | (Inr tempDir, w1) \<Rightarrow>
          (let zipDestination = path_join pf tempDir ZIP_NAME;
               contentsDir = path_join pf tempDir CONTENT_DIR_NAME in
           (case fetchZip pf downloadUrl zipDestination w1 of
              (Inl e, w2) \<Rightarrow> (Inl e, Some zipDestination, w2)
            | (Inr u, w2) \<Rightarrow>
                (case extractZip pf zipDestination contentsDir w2 of
                   (Inl e, w3) \<Rightarrow> (Inl e, Some zipDestination, w3)
                 | (Inr fileCount, w3) \<Rightarrow>
                     (Inr (), Some zipDestination,
                      emit [SetOutput ''temp_dir'' (OutString tempDir),
                            SetOutput ''file_count'' (OutNumber fileCount)] w3))))))"

text \<open>
  \<open>fs.unlinkSync\<close> inside its own \<open>try\<close>: it throws when the file is not there or
  cannot be removed, and the \<open>catch\<close> logs that.
\<close>

definition unlink_quietly :: "platform \<Rightarrow> string \<Rightarrow> world \<Rightarrow> world" where
  "unlink_quietly pf zipDestination w =
     (if zipDestination \<in> files w \<and> \<not> unlink_fails pf zipDestination
      then w\<lparr>files := files w - {zipDestination}\<rparr>
      else emit [Info (CouldNotDelete zipDestination)] w)"

text \<open>The \<open>finally\<close> block of \<open>run\<close>.\<close>

definition cleanup :: "platform \<Rightarrow> string option \<Rightarrow> world \<Rightarrow> world" where
  "cleanup pf zipDestination w =
     (case zipDestination of
        None \<Rightarrow> w
      | Some z \<Rightarrow> if truthy z then unlink_quietly pf z w else w)"

text \<open>
  \<open>run\<close>: the \<open>try\<close> block, the \<open>catch\<close> when it threw, then the \<open>finally\<close>; nothing
  more once the process has ended.
\<close>

definition run :: "platform \<Rightarrow> string \<Rightarrow> world \<Rightarrow> world" where
  "run pf downloadUrl w =
     (case run_try pf downloadUrl w of (r, zipDestination, w1) \<Rightarrow>
        (case r of
           Inl e \<Rightarrow>
             if uncaught e then w1
             else cleanup pf zipDestination
                    (emit [Warning (ErrorMessage e),
                           SetOutput ''error_message'' (OutError e)] w1)
         | Inr u \<Rightarrow> cleanup pf zipDestination w1))"

text \<open>
  Lines 136 to 152, the listener of \<open>'finish'\<close> on the write stream of \<open>filter.xml\<close>: the
  file is read back, and the paths of the manifest are the output \<open>content_paths\<close>.
\<close>

definition on_finish :: "platform \<Rightarrow> world \<Rightarrow> world" where
  "on_finish pf w =
     (let w1 = emit [ConsoleLog ManifestExtracted] w in
      if read_fails pf ''filter.xml''
      then emit [ConsoleError (ErrorReadingFile ''filter.xml'')] w1
      else (case texts w1 ''filter.xml'' of
              None \<Rightarrow> emit [ConsoleError (ErrorReadingFile ''filter.xml'')] w1
            | Some data \<Rightarrow>
                emit [ConsoleLog (FilterContent data),
                      SetOutput ''content_paths'' (OutPaths (getFilterPathsSimple data))] w1))"

text \<open>
  Lines 133 to 156, as the event loop runs them once \<open>run\<close> has come to its end:
  \<open>fs.createReadStream(source).pipe(unzipper.ParseOne(entryName))
  .pipe(fs.createWriteStream(destination))\<close>. The two listeners are on the write stream.
  When the destination cannot be written, its \<open>'error'\<close> is logged. When it can, the file
  is made, empty at first, and holds the entry once \<open>'finish'\<close> is sent. When the source
  cannot be read or holds no such entry, the \<open>'error'\<close> of the read stream or of
  \<open>ParseOne\<close> has no listener: the process ends. The result says whether the process
  goes on.
\<close>

fun run_pipeline :: "platform \<Rightarrow> pipeline \<Rightarrow> world \<Rightarrow> bool \<times> world" where
  "run_pipeline pf (ParseOne source entryName destination) w =
     (let w1 = (if write_fails pf destination
                then emit [ConsoleError (ErrorExtracting destination)] w
                else w\<lparr>files := insert destination (files w),
                       texts := (texts w)(destination \<mapsto> [])\<rparr>) in
      case parse_one pf source entryName of
        None \<Rightarrow> (False, w1)
      | Some data \<Rightarrow>
          if write_fails pf destination then (True, w1)
          else (True, on_finish pf (w1\<lparr>texts := (texts w1)(destination \<mapsto> data)\<rparr>)))"

text \<open>The pipelines left to the event loop are run in turn, while the process goes on.\<close>

fun drain :: "platform \<Rightarrow> pipeline list \<Rightarrow> world \<Rightarrow> world" where
  "drain pf [] w = w"
| "drain pf (p # ps) w =
     (case run_pipeline pf p w of (goes_on, w1) \<Rightarrow> if goes_on then drain pf ps w1 else w1)"

definition event_loop :: "platform \<Rightarrow> world \<Rightarrow> world" where
  "event_loop pf w = drain pf (detached w) (w\<lparr>detached := []\<rparr>)"

text \<open>The process has ended inside \<open>run\<close>.\<close>

definition run_killed :: "platform \<Rightarrow> string \<Rightarrow> world \<Rightarrow> bool" where
  "run_killed pf downloadUrl w =
     (case fst (run_try pf downloadUrl w) of Inl e \<Rightarrow> uncaught e | Inr u \<Rightarrow> False)"

text \<open>
  Line 205, the module as a whole: \<open>await run()\<close>, and then what was left to the event
  loop, when the process is still there.
\<close>

definition sta_import_zip :: "platform \<Rightarrow> string \<Rightarrow> world \<Rightarrow> world" where
  "sta_import_zip pf downloadUrl w =
     (if run_killed pf downloadUrl w then run pf downloadUrl w
      else event_loop pf (run pf downloadUrl w))"

text \<open>A platform to run the action on: every call succeeds but those named.\<close>

definition sample_manifest :: string where
  "sample_manifest = ''<filter root=\"/content/site\"></filter>''"

definition sample_archive :: "archive_entry list" where
  "sample_archive =
     [\<lparr>path = ''jcr_root/'', type = Directory\<rparr>,
      \<lparr>path = ''a.zip'', type = File\<rparr>,
      \<lparr>path = ''B.ZIP'', type = File\<rparr>,
      \<lparr>path = ''c.zip'', type = File\<rparr>,
      \<lparr>path = ''docs/index.docx'', type = File\<rparr>]"

definition late_zip_archive :: "archive_entry list" where
  "late_zip_archive =
     [\<lparr>path = ''jcr_root/'', type = Directory\<rparr>,
      \<lparr>path = ''docs/index.docx'', type = File\<rparr>,
      \<lparr>path = ''readme.txt'', type = File\<rparr>,
      \<lparr>path = ''late.zip'', type = File\<rparr>]"

definition sample_platform :: "archive_entry list \<Rightarrow> bool \<Rightarrow> platform" where
  "sample_platform directory unlink_refused =
     \<lparr>path_join = (\<lambda>a b. a @ ''/'' @ b),
      path_dirname = (\<lambda>p. let d = rev (tl (dropWhile (\<lambda>c. c \<noteq> CHR ''/'') (rev p)))
                          in if d = [] then ''/'' else d),
      tmpdir = ''/tmp'',
      url_valid = (\<lambda>u. startsWith u ''https://''),
      mkdtempSync = (\<lambda>prefix. Some (prefix @ ''Ab12Cd'')),
      mkdir_fails = (\<lambda>p. False),
      write_fails = (\<lambda>p. False),
      unlink_fails = (\<lambda>p. unlink_refused),
      fetch = (\<lambda>u. Some \<lparr>ok = True, status = 200, statusText = ''OK'', body_complete = True\<rparr>),
      open_zip = (\<lambda>p. Some directory),
      stream_fails = (\<lambda>p. False),
      parse_one = (\<lambda>source entryName. Some sample_manifest),
      read_fails = (\<lambda>p. False),
      cwd = ''/work'',
      path_isAbsolute = (\<lambda>p. startsWith p ''/'')\<rparr>"

definition empty_world :: world where
  "empty_world =
     \<lparr>files = {}, dirs = {''/'', ''/tmp'', ''/work''}, log = [], detached = [],
      texts = (\<lambda>p. None)\<rparr>"

text \<open>
  An archive that names one path as a file and then as a directory, and the platform on
  which it is extracted to \<open>/tmp/c\<close>: no directory can be made where the archive has put
  a file.
\<close>

definition clash_archive :: "archive_entry list" where
  "clash_archive =
     [\<lparr>path = ''x'', type = File\<rparr>,
      \<lparr>path = ''n.zip'', type = File\<rparr>,
      \<lparr>path = ''x/y.txt'', type = File\<rparr>,
      \<lparr>path = ''z.txt'', type = File\<rparr>]"

definition clash_platform :: platform where
  "clash_platform =
     (sample_platform clash_archive False)
       \<lparr>mkdir_fails :=
          (\<lambda>p. p \<in> set (map (\<lambda>entry. ''/tmp/c/'' @ path entry)
                          (filter (\<lambda>entry. type entry = File) clash_archive)))\<rparr>"

text \<open>A platform on which the stream of the entry \<open>a.zip\<close> fails.\<close>

definition broken_stream_platform :: platform where
  "broken_stream_platform =
     (sample_platform sample_archive False)\<lparr>stream_fails := (\<lambda>p. p = ''a.zip'')\<rparr>"


section \<open>sta-import-zip: what a run shows\<close>

text \<open>The effects added to the log between two worlds.\<close>

definition effects_of :: "world \<Rightarrow> world \<Rightarrow> effect list" where
  "effects_of w w' = drop (length (log w)) (log w')"

text \<open>The values given to the output \<open>xwalk_zip\<close>, in order.\<close>

fun xwalk_zip_value :: "effect \<Rightarrow> string option" where
  "xwalk_zip_value (SetOutput k (OutString v)) = (if k = ''xwalk_zip'' then Some v else None)"
| "xwalk_zip_value e = None"

definition xwalk_outputs :: "effect list \<Rightarrow> string list" where
  "xwalk_outputs es = List.map_filter xwalk_zip_value es"

text \<open>The count of extracted entries each progress message carries, in order.\<close>

fun progress_step :: "effect \<Rightarrow> nat option" where
  "progress_step (Info (ExtractionProgress p n t)) = Some n"
| "progress_step e = None"

definition progress_steps :: "effect list \<Rightarrow> nat list" where
  "progress_steps es = List.map_filter progress_step es"

fun fetch_call :: "effect \<Rightarrow> bool" where
  "fetch_call (FetchCall u) = True"
| "fetch_call e = False"

text \<open>The test of line 102 on a name.\<close>

definition zip_name :: "string \<Rightarrow> bool" where
  "zip_name p = endsWith (toLowerCase p) ''.zip''"

text \<open>An entry is written when no call of lines 108 to 119 throws and no stream fails.\<close>

definition entry_written :: "platform \<Rightarrow> string \<Rightarrow> archive_entry \<Rightarrow> bool" where
  "entry_written pf contentsDir entry =
     (let fullPath = path_join pf contentsDir (path entry) in
      if type entry = Directory then \<not> mkdir_fails pf fullPath
      else \<not> mkdir_fails pf (path_dirname pf fullPath) \<and> \<not> write_fails pf fullPath
           \<and> \<not> stream_fails pf (path entry))"

text \<open>The world as the \<open>finally\<close> block of \<open>run\<close> is entered, after the \<open>catch\<close>.\<close>

definition before_cleanup :: "platform \<Rightarrow> string \<Rightarrow> world \<Rightarrow> world" where
  "before_cleanup pf downloadUrl w =
     (case run_try pf downloadUrl w of (r, zipDestination, w1) \<Rightarrow>
        (case r of
           Inl e \<Rightarrow> emit [Warning (ErrorMessage e), SetOutput ''error_message'' (OutError e)] w1
         | Inr u \<Rightarrow> w1))"



text \<open>The path \<open>run\<close> downloads the archive to, when the temporary directory is made.\<close>

definition zip_destination :: "platform \<Rightarrow> string option" where
  "zip_destination pf =
     map_option (\<lambda>tempDir. path_join pf tempDir ZIP_NAME)
       (mkdtempSync pf (path_join pf (tmpdir pf) ''sta-''))"

section \<open>sta-mountpoint\<close>

text \<open>
  \<open>new URL(s)\<close> is a parameter: it gives the host and the path name of the address, or
  throws. \<open>/word/i.test(s)\<close> looks for the word in \<open>s\<close>, letters compared without case.
\<close>

record url =
  host :: string
  pathname :: string

record mountpoint_data =
  data_host :: string
  data_site :: "string option"
  data_path :: "string option"

datatype mp_error =
    InvalidRequestedType string
  | GoogleNotSupported
  | DropboxNotSupported
  | GitHubNotSupported
  | MountpointNotSupported string
  | TypeMismatch string string
  | InvalidMountpointURL string
  | SplitOfUndefined
  | NotExpectedFormat

datatype mp_message =
    MountpointProvided string
  | TypeFound string
  | MountpointData mountpoint_data

datatype mp_output = MpString string | MpData mountpoint_data | MpError mp_error

datatype mp_effect =
    MpInfo mp_message
  | MpWarning mp_error
  | MpSetOutput string mp_output

definition test_ignore_case :: "string \<Rightarrow> string \<Rightarrow> bool" where
  "test_ignore_case word s = includes_str (toLowerCase s) (toLowerCase word)"

text \<open>
  \<open>getMountpointData\<close>. Reading \<open>sitesParts[1]\<close> when the split gave one piece gives
  \<open>undefined\<close>, and calling \<open>split\<close> on it throws a \<open>TypeError\<close>.
\<close>

definition getMountpointData ::
  "(string \<Rightarrow> url option) \<Rightarrow> string \<Rightarrow> string \<Rightarrow> mp_error + mountpoint_data" where
  "getMountpointData parse_url rootMountpoint mtype =
     (case parse_url rootMountpoint of
        None \<Rightarrow> Inl (InvalidMountpointURL rootMountpoint)
      | Some u \<Rightarrow>
          if mtype = ''sharepoint''
          then (let sitesParts = split_str (pathname u) ''/sites/'' in
                if length sitesParts < 2 then Inl SplitOfUndefined
                else (case split_str (sitesParts ! 1) ''/'' of
                        [] \<Rightarrow> Inl NotExpectedFormat
                      | site # pathParts \<Rightarrow>
                          (let path0 = join pathParts ''/'';
                               path1 = (if length sitesParts = 3
                                        then path0 @ ''/sites/'' @ sitesParts ! 2
                                        else path0)
                           in if \<not> truthy (host u) \<or> \<not> truthy site \<or> \<not> truthy path1
                              then Inl NotExpectedFormat
                              else Inr \<lparr>data_host = host u, data_site = Some site,
                                        data_path = Some path1\<rparr>)))
          else if mtype = ''crosswalk''
          then Inr \<lparr>data_host = host u, data_site = None,
                    data_path = Some (drop 1 (pathname u))\<rparr>
          else Inr \<lparr>data_host = host u, data_site = None, data_path = None\<rparr>)"

text \<open>Lines 63 to 76 of \<open>run\<close>: the kind of the mountpoint, from its text.\<close>

definition find_type :: "string \<Rightarrow> mp_error + string" where
  "find_type rootEntry =
     (if test_ignore_case ''sharepoint'' rootEntry then Inr ''sharepoint''
      else if test_ignore_case ''adobeaemcloud'' rootEntry then Inr ''crosswalk''
      else if test_ignore_case ''drive.google.com'' rootEntry then Inl GoogleNotSupported
      else if test_ignore_case ''dropbox'' rootEntry then Inl DropboxNotSupported
      else if test_ignore_case ''github.com'' rootEntry then Inl GitHubNotSupported
      else Inl (MountpointNotSupported rootEntry))"

text \<open>The \<open>try\<close> block of \<open>run\<close>: the effects made, and the error thrown if any.\<close>

definition mountpoint_try ::
  "(string \<Rightarrow> url option) \<Rightarrow> string \<Rightarrow> string \<Rightarrow> mp_effect list \<times> mp_error option" where
  "mountpoint_try parse_url desiredMountpointType rootEntry =
     (if desiredMountpointType \<notin> set [''sharepoint'', ''crosswalk'']
      then ([], Some (InvalidRequestedType desiredMountpointType))
      else (let es1 = [MpInfo (MountpointProvided rootEntry)] in
            case find_type rootEntry of
              Inl e \<Rightarrow> (es1, Some e)
            | Inr mtype \<Rightarrow>
                if mtype \<noteq> desiredMountpointType
                then (es1, Some (TypeMismatch desiredMountpointType mtype))
                else (let es2 = es1 @ [MpSetOutput ''mountpoint'' (MpString rootEntry),
                                       MpSetOutput ''type'' (MpString mtype),
                                       MpInfo (TypeFound mtype)] in
                      (case getMountpointData parse_url rootEntry mtype of
                         Inl e \<Rightarrow> (es2, Some e)
                       | Inr d \<Rightarrow>
                           (es2 @ [MpInfo (MountpointData d), MpSetOutput ''data'' (MpData d)],
                            None)))))"

definition run_mountpoint ::
  "(string \<Rightarrow> url option) \<Rightarrow> string \<Rightarrow> string \<Rightarrow> mp_effect list" where
  "run_mountpoint parse_url desiredMountpointType rootEntry =
     (case mountpoint_try parse_url desiredMountpointType rootEntry of
        (es, None) \<Rightarrow> es
      | (es, Some e) \<Rightarrow> es @ [MpWarning e, MpSetOutput ''error_message'' (MpError e)])"

text \<open>A reading of addresses of the shape \<open>https://host/path\<close>, to run the action on.\<close>

definition sample_parse_url :: "string \<Rightarrow> url option" where
  "sample_parse_url s =
     (if startsWith s ''https://''
      then (let rest = drop (length ''https://'') s in
            Some \<lparr>host = takeWhile (\<lambda>c. c \<noteq> CHR ''/'') rest,
                  pathname = dropWhile (\<lambda>c. c \<noteq> CHR ''/'') rest\<rparr>)
      else None)"

section \<open>sta-xwalk-upload: the echo of the command\<close>

definition upload_args :: "string \<Rightarrow> string \<Rightarrow> string \<Rightarrow> string \<Rightarrow> bool \<Rightarrow> string list" where
  "upload_args xwalkZipPath assetMappingPath target token skipAssets =
     [''@adobe/aem-import-helper'', ''aem'', ''upload'',
      ''--zip'', xwalkZipPath,
      ''--asset-mapping'', assetMappingPath,
      ''--target'', target,
      ''--token'', token]
     @ (if skipAssets then [''--skip-assets''] else [])"

definition suffixArray :: "string list" where
  "suffixArray = [[], [], ''\<newline>>  '', [], ''\<newline>>  '', [], ''\<newline>>  '', [], ''\<newline>>  '']"

definition mask_arg :: "string \<Rightarrow> nat \<times> string \<Rightarrow> string" where
  "mask_arg token ia =
     (case ia of (index, arg) \<Rightarrow>
        if arg = token then ''***\<newline>>  ''
        else arg @ suffixArray ! (index mod length suffixArray))"

definition maskedArgs :: "string list \<Rightarrow> string \<Rightarrow> string list" where
  "maskedArgs args token = map (mask_arg token) (enumerate 0 args)"

text \<open>The second line \<open>runUpload\<close> gives to \<open>core.info\<close>.\<close>

definition command_echo :: "string \<Rightarrow> string \<Rightarrow> string \<Rightarrow> string \<Rightarrow> bool \<Rightarrow> string" where
  "command_echo xwalkZipPath assetMappingPath target token skipAssets =
     ''> npx '' @ join (maskedArgs
        (upload_args xwalkZipPath assetMappingPath target token skipAssets) token) '' ''"

section \<open>Properties of the string operations\<close>

lemma startsWith_iff: "startsWith s p \<longleftrightarrow> (\<exists>r. s = p @ r)"
  by (induction s p rule: startsWith.induct) auto

lemma startsWith_drop: "startsWith s p \<Longrightarrow> s = p @ drop (length p) s"
  by (auto simp: startsWith_iff)


lemma split_from_not_Nil: "split_from sep cur s \<noteq> []"
  by (induction sep cur s rule: split_from.induct) auto

text \<open>Joining the pieces of a split with the separator gives the string back.\<close>

lemma split_from_join:
  "sep \<noteq> [] \<Longrightarrow> join (split_from sep cur s) sep = cur @ s"
proof (induction sep cur s rule: split_from.induct)
  case (1 sep cur)
  then show ?case by simp
next
  case (2 sep cur c cs)
  show ?case
  proof (cases "startsWith (c # cs) sep")
    case True
    have eq: "c # cs = sep @ drop (length sep) (c # cs)"
      by (rule startsWith_drop[OF True])
    obtain x xs where sp: "split_from sep [] (drop (length sep) (c # cs)) = x # xs"
      using split_from_not_Nil[of sep "[]" "drop (length sep) (c # cs)"]
      by (auto simp: neq_Nil_conv)
    have "join (x # xs) sep = drop (length sep) (c # cs)"
      using 2(1)[OF _ 2(3)] True 2(3) sp by simp
    then have "join (cur # x # xs) sep = cur @ sep @ drop (length sep) (c # cs)"
      by simp
    with eq True 2(3) sp show ?thesis by (simp del: drop_Suc_Cons)
  next
    case False
    then show ?thesis using 2(2) 2(3) by simp
  qed
qed

lemma split_str_join: "sep \<noteq> [] \<Longrightarrow> join (split_str s sep) sep = s"
  by (simp add: split_str_def split_from_join)

text \<open>Split at a single code unit, no piece contains it: the lines hold no line feed.\<close>

lemma split_from_free:
  "c \<notin> set cur \<Longrightarrow> list_all (\<lambda>l. c \<notin> set l) (split_from [c] cur s)"
  by (induction "[c]" cur s rule: split_from.induct) auto

lemma lines_free: "list_all (\<lambda>l. CHR 0x0A \<notin> set l) (split_str s ''\<newline>'')"
  by (simp add: split_str_def split_from_free)

text \<open>A string without the separator is one piece.\<close>

lemma split_from_no_separator:
  "\<not> includes_str s sep \<Longrightarrow> split_from sep cur s = [cur @ s]"
  by (induction sep cur s rule: split_from.induct) auto

section \<open>Properties of the manifest scanner\<close>

lemma dropWhile_all: "list_all P ws \<Longrightarrow> dropWhile P (ws @ r) = dropWhile P r"
  by (induction ws) auto

lemma takeWhile_all: "list_all P ws \<Longrightarrow> takeWhile P (ws @ r) = ws @ takeWhile P r"
  by (induction ws) auto

lemma list_all_takeWhile: "list_all P (takeWhile P xs)"
  by (induction xs) auto

text \<open>The matcher accepts only lines of the language of the regular expression.\<close>

lemma match_filter_line_sound:
  assumes "match_filter_line line = Some p"
  shows "filter_line line p"
proof -
  define s1 where "s1 = dropWhile is_space line"
  define s2 where "s2 = drop (length ''<filter'') s1"
  define s3 where "s3 = dropWhile is_space s2"
  define s4 where "s4 = drop (length ''root=\"'') s3"
  define s5 where "s5 = dropWhile (\<lambda>c. c \<noteq> CHR 0x22) s4"
  define ws3 where "ws3 = drop (length ''\"></filter>'') s5"
  from assms have a: "startsWith s1 ''<filter''" "s3 \<noteq> s2" "startsWith s3 ''root=\"''"
    "p = takeWhile (\<lambda>c. c \<noteq> CHR 0x22) s4" "p \<noteq> []" "startsWith s5 ''\"></filter>''"
    "list_all is_space ws3"
    unfolding match_filter_line_def Let_def s1_def s2_def s3_def s4_def s5_def ws3_def
    by (simp_all split: if_splits)
  have l1: "line = takeWhile is_space line @ s1" by (simp add: s1_def)
  have l2: "s1 = ''<filter'' @ s2" unfolding s2_def by (rule startsWith_drop[OF a(1)])
  have l3: "s2 = takeWhile is_space s2 @ s3" by (simp add: s3_def)
  have l4: "s3 = ''root=\"'' @ s4" unfolding s4_def by (rule startsWith_drop[OF a(3)])
  have l5: "s4 = p @ s5" by (simp add: a(4) s5_def)
  have l6: "s5 = ''\"></filter>'' @ ws3" unfolding ws3_def by (rule startsWith_drop[OF a(6)])
  have ne: "takeWhile is_space s2 \<noteq> []" using l3 a(2) by auto
  have "line = takeWhile is_space line @ ''<filter'' @ takeWhile is_space s2
                 @ ''root=\"'' @ p @ ''\"></filter>'' @ ws3"
    using l1 l2 l3 l4 l5 l6 by metis
  then show ?thesis
    unfolding filter_line_def
    using ne a(5) a(7) list_all_takeWhile[of is_space]
      list_all_takeWhile[of "\<lambda>c. c \<noteq> CHR 0x22" s4] a(4)
    by blast
qed

text \<open>The matcher accepts every line of the language, with the group the language gives.\<close>

lemma match_filter_line_complete:
  assumes "filter_line line p"
  shows "match_filter_line line = Some p"
proof -
  from assms obtain ws1 ws2 ws3 where
    line: "line = ws1 @ ''<filter'' @ ws2 @ ''root=\"'' @ p @ ''\"></filter>'' @ ws3"
    and w: "list_all is_space ws1" "ws2 \<noteq> []" "list_all is_space ws2" "p \<noteq> []"
      "list_all (\<lambda>c. c \<noteq> CHR 0x22) p" "list_all is_space ws3"
    unfolding filter_line_def by blast
  have s1: "dropWhile is_space line
              = ''<filter'' @ ws2 @ ''root=\"'' @ p @ ''\"></filter>'' @ ws3"
    unfolding line using w(1) by (simp add: dropWhile_all is_space_def)
  have s3: "dropWhile is_space (ws2 @ ''root=\"'' @ p @ ''\"></filter>'' @ ws3)
              = ''root=\"'' @ p @ ''\"></filter>'' @ ws3"
    using w(3) by (simp add: dropWhile_all is_space_def)
  have ne: "''root=\"'' @ p @ ''\"></filter>'' @ ws3
              \<noteq> ws2 @ ''root=\"'' @ p @ ''\"></filter>'' @ ws3"
    using w(2) by simp
  have p: "takeWhile (\<lambda>c. c \<noteq> CHR 0x22) (p @ ''\"></filter>'' @ ws3) = p"
    using w(5) by (simp add: takeWhile_all)
  have s5: "dropWhile (\<lambda>c. c \<noteq> CHR 0x22) (p @ ''\"></filter>'' @ ws3)
              = ''\"></filter>'' @ ws3"
    using w(5) by (simp add: dropWhile_all)
  show ?thesis
    unfolding match_filter_line_def Let_def s1
    using s3 ne p s5 w(4) w(6) by simp
qed

lemma match_filter_line_iff: "match_filter_line line = Some p \<longleftrightarrow> filter_line line p"
  using match_filter_line_sound match_filter_line_complete by blast

lemma collect_paths_map_filter:
  "collect_paths lines paths = paths @ List.map_filter match_filter_line lines"
  by (induction lines arbitrary: paths) (auto simp: List.map_filter_simps split: option.splits)

lemma map_filter_matches:
  "list_all2 filter_line (filter (\<lambda>l. \<exists>p. filter_line l p) ls)
     (List.map_filter match_filter_line ls)"
proof (induction ls)
  case Nil
  then show ?case by (simp add: List.map_filter_simps)
next
  case (Cons l ls)
  show ?case
  proof (cases "match_filter_line l")
    case None
    then have "\<not> (\<exists>p. filter_line l p)"
      by (simp add: match_filter_line_iff [symmetric])
    with None Cons show ?thesis by (auto simp: List.map_filter_simps)
  next
    case (Some p)
    then have "filter_line l p" by (simp add: match_filter_line_iff)
    with Some Cons show ?thesis by (auto simp: List.map_filter_simps)
  qed
qed

text \<open>
  C3. The lines of the manifest are its pieces between line feeds. The scanner returns
  one path for each line that matches the filter pattern, in the order of the lines and
  with repetitions kept: the matching lines and the returned paths correspond one to one,
  each path being the \<open>root\<close> value of its line, so \<open>N\<close> matching lines give exactly
  \<open>N\<close> paths whatever the number of other lines. For the manifest of the specification
  the paths are \<open>/content/foo\<close> and \<open>/content/bar\<close>.
\<close>

theorem getFilterPathsSimple_paths:
  "list_all2 filter_line
     (filter (\<lambda>l. \<exists>p. filter_line l p) (split_str xml ''\<newline>''))
     (getFilterPathsSimple xml)
   \<and> length (getFilterPathsSimple xml)
       = length (filter (\<lambda>l. \<exists>p. filter_line l p) (split_str xml ''\<newline>''))
   \<and> getFilterPathsSimple
         ''<filter root=\"/content/foo\"></filter>\<newline>not a filter\<newline><filter root=\"/content/bar\"></filter>''
       = [''/content/foo'', ''/content/bar'']"
proof -
  have eq: "getFilterPathsSimple xml
              = List.map_filter match_filter_line (split_str xml ''\<newline>'')"
    by (simp add: getFilterPathsSimple_def collect_paths_map_filter)
  have a: "list_all2 filter_line
     (filter (\<lambda>l. \<exists>p. filter_line l p) (split_str xml ''\<newline>''))
     (getFilterPathsSimple xml)"
    unfolding eq by (rule map_filter_matches)
  have b: "getFilterPathsSimple
         ''<filter root=\"/content/foo\"></filter>\<newline>not a filter\<newline><filter root=\"/content/bar\"></filter>''
       = [''/content/foo'', ''/content/bar'']"
    by code_simp
  from a b show ?thesis by (auto dest: list_all2_lengthD)
qed

text \<open>
  White space around the declaration and between \<open>filter\<close> and \<open>root\<close> is accepted,
  a repeated path is returned twice, and a line of another shape gives nothing.
\<close>

lemma getFilterPathsSimple_sample:
  "getFilterPathsSimple
     (''  <filter root=\"/content/a\"></filter> '' @ [CHR 0x0D] @ ''\<newline>''
      @ ''<filter'' @ [CHR 0x09] @ ''root=\"/content/a\"></filter>\<newline>''
      @ ''<filter root=\"/content/b\"/>\<newline>''
      @ ''<filter root=\"\"></filter>\<newline>''
      @ ''<filter root=\"/content/c\"></filter> <!-- c -->'')
   = [''/content/a'', ''/content/a'']"
  by code_simp

section \<open>Properties of the extraction loop\<close>

lemma initial_state_simps [simp]:
  "extractedFiles initial_state = 0"
  "nextProgress initial_state = 20"
  "zipFilePath initial_state = None"
  by (simp_all add: initial_state_def)

lemma emit_simps [simp]:
  "log (emit es w) = log w @ es"
  "files (emit es w) = files w"
  "dirs (emit es w) = dirs w"
  "detached (emit es w) = detached w"
  "texts (emit es w) = texts w"
  by (simp_all add: emit_def)

lemma map_filter_append: "List.map_filter f (xs @ ys) = List.map_filter f xs @ List.map_filter f ys"
  by (simp add: List.map_filter_def)

lemma xwalk_outputs_append [simp]:
  "xwalk_outputs (xs @ ys) = xwalk_outputs xs @ xwalk_outputs ys"
  by (simp add: xwalk_outputs_def map_filter_append)

lemma progress_steps_append [simp]:
  "progress_steps (xs @ ys) = progress_steps xs @ progress_steps ys"
  by (simp add: progress_steps_def map_filter_append)

lemma xwalk_outputs_simps [simp]:
  "xwalk_outputs [] = []"
  "xwalk_outputs (e # es) = (case xwalk_zip_value e of None \<Rightarrow> xwalk_outputs es | Some v \<Rightarrow> v # xwalk_outputs es)"
  by (simp_all add: xwalk_outputs_def List.map_filter_simps split: option.splits)

lemma progress_steps_simps [simp]:
  "progress_steps [] = []"
  "progress_steps (e # es) = (case progress_step e of None \<Rightarrow> progress_steps es | Some n \<Rightarrow> n # progress_steps es)"
  by (simp_all add: progress_steps_def List.map_filter_simps split: option.splits)

lemma note_zip_simps [simp]:
  "extractedFiles (fst (note_zip entry s w)) = extractedFiles s"
  "nextProgress (fst (note_zip entry s w)) = nextProgress s"
  "zipFilePath (fst (note_zip entry s w)) =
     (if extractedFiles s < 3 \<and> zip_name (path entry) then Some (path entry) else zipFilePath s)"
  "log (snd (note_zip entry s w)) =
     log w @ (if extractedFiles s < 3 \<and> zip_name (path entry)
              then [SetOutput ''xwalk_zip'' (OutString (path entry)), Info (CpZip (path entry))]
              else [])"
  "detached (snd (note_zip entry s w)) = detached w"
  "files (snd (note_zip entry s w)) = files w"
  "dirs (snd (note_zip entry s w)) = dirs w"
  "texts (snd (note_zip entry s w)) = texts w"
  by (simp_all add: note_zip_def zip_name_def)

lemma report_progress_simps [simp]:
  "extractedFiles (fst (report_progress t s w)) = extractedFiles s + 1"
  "nextProgress (fst (report_progress t s w)) =
     (if nextProgress s \<le> (extractedFiles s + 1) * 100 div t then nextProgress s + 20
      else nextProgress s)"
  "zipFilePath (fst (report_progress t s w)) = zipFilePath s"
  "log (snd (report_progress t s w)) =
     log w @ (if nextProgress s \<le> (extractedFiles s + 1) * 100 div t
              then [Info (ExtractionProgress ((extractedFiles s + 1) * 100 div t)
                            (extractedFiles s + 1) t)]
              else [])"
  "detached (snd (report_progress t s w)) = detached w"
  "files (snd (report_progress t s w)) = files w"
  "dirs (snd (report_progress t s w)) = dirs w"
  "texts (snd (report_progress t s w)) = texts w"
  by (simp_all add: report_progress_def Let_def)

lemma write_entry_result:
  "(\<exists>u. fst (write_entry pf (path_join pf contentsDir (path entry)) entry w) = Inr u)
     \<longleftrightarrow> entry_written pf contentsDir entry"
  by (simp add: write_entry_def entry_written_def Let_def)

lemma write_entry_frame [simp]:
  "log (snd (write_entry pf fullPath entry w)) = log w"
  "detached (snd (write_entry pf fullPath entry w)) = detached w"
  "texts (snd (write_entry pf fullPath entry w)) = texts w"
  by (simp_all add: write_entry_def Let_def)

lemma write_entry_grows:
  "dirs w \<subseteq> dirs (snd (write_entry pf fullPath entry w))"
  "files w \<subseteq> files (snd (write_entry pf fullPath entry w))"
  by (auto simp: write_entry_def Let_def)

lemma write_entry_files:
  "files (snd (write_entry pf fullPath entry w)) \<subseteq> insert fullPath (files w)"
  by (auto simp: write_entry_def Let_def)

text \<open>One turn of the loop: the entry fails and the loop is left, or the loop goes on.\<close>

lemma extract_entries_turn:
  obtains (fails) e where
      "\<not> entry_written pf cd entry"
      "extract_entries pf cd t (entry # rest) s w =
         (Inl e, snd (write_entry pf (path_join pf cd (path entry)) entry (snd (note_zip entry s w))))"
  | (goes_on)
      "entry_written pf cd entry"
      "extract_entries pf cd t (entry # rest) s w =
         extract_entries pf cd t rest
           (fst (report_progress t (fst (note_zip entry s w))
              (snd (write_entry pf (path_join pf cd (path entry)) entry (snd (note_zip entry s w))))))
           (snd (report_progress t (fst (note_zip entry s w))
              (snd (write_entry pf (path_join pf cd (path entry)) entry (snd (note_zip entry s w))))))"
proof (cases "fst (write_entry pf (path_join pf cd (path entry)) entry (snd (note_zip entry s w)))")
  case (Inl e)
  then have "\<not> entry_written pf cd entry"
    using write_entry_result[of pf cd entry "snd (note_zip entry s w)"] by simp
  moreover have "extract_entries pf cd t (entry # rest) s w =
         (Inl e, snd (write_entry pf (path_join pf cd (path entry)) entry (snd (note_zip entry s w))))"
    using Inl by (simp add: Let_def case_prod_beta)
  ultimately show ?thesis by (rule fails)
next
  case (Inr u)
  then have "entry_written pf cd entry"
    using write_entry_result[of pf cd entry "snd (note_zip entry s w)"] by auto
  moreover have "extract_entries pf cd t (entry # rest) s w =
         extract_entries pf cd t rest
           (fst (report_progress t (fst (note_zip entry s w))
              (snd (write_entry pf (path_join pf cd (path entry)) entry (snd (note_zip entry s w))))))
           (snd (report_progress t (fst (note_zip entry s w))
              (snd (write_entry pf (path_join pf cd (path entry)) entry (snd (note_zip entry s w))))))"
    using Inr by (simp add: Let_def case_prod_beta)
  ultimately show ?thesis by (rule goes_on)
qed

text \<open>The log only grows.\<close>

lemma extract_entries_log:
  "\<exists>new. log (snd (extract_entries pf cd t es s w)) = log w @ new"
proof (induction es arbitrary: s w)
  case Nil
  then show ?case by simp
next
  case (Cons entry rest)
  show ?case
  proof (cases rule: extract_entries_turn[of pf cd entry t rest s w])
    case (fails e)
    then show ?thesis by simp
  next
    case goes_on
    obtain new where "log (snd (extract_entries pf cd t (entry # rest) s w)) =
        log (snd (report_progress t (fst (note_zip entry s w))
              (snd (write_entry pf (path_join pf cd (path entry)) entry (snd (note_zip entry s w)))))) @ new"
      using Cons.IH goes_on(2) by metis
    then show ?thesis by simp
  qed
qed

lemma take_reach:
  "take (3 - k) (e # es) = (if k < 3 then e # take (3 - (k + 1)) es else [])"
proof (cases "k < 3")
  case True
  then have "3 - k = Suc (3 - (k + 1))" by simp
  with True show ?thesis by (simp del: One_nat_def)
next
  case False
  then show ?thesis by simp
qed

text \<open>The candidates, when the loop ends without an error.\<close>

lemma extract_entries_candidates:
  assumes "extract_entries pf cd t es s w = (Inr s', w')"
  shows "xwalk_outputs (log w') = xwalk_outputs (log w)
             @ filter zip_name (map path (take (3 - extractedFiles s) es))
         \<and> zipFilePath s' =
             (case rev (filter zip_name (map path (take (3 - extractedFiles s) es))) of
                [] \<Rightarrow> zipFilePath s | z # zs \<Rightarrow> Some z)
         \<and> extractedFiles s' = extractedFiles s + length es
         \<and> detached w' = detached w
         \<and> list_all (entry_written pf cd) es"
  using assms
proof (induction es arbitrary: s w)
  case Nil
  then show ?case by simp
next
  case (Cons entry rest)
  show ?case
  proof (cases rule: extract_entries_turn[of pf cd entry t rest s w])
    case (fails e)
    with Cons.prems show ?thesis by simp
  next
    case goes_on
    note ih = Cons.IH[OF Cons.prems[unfolded goes_on(2)]]
    have tk: "take (3 - extractedFiles s) (entry # rest) =
       (if extractedFiles s < 3 then entry # take (3 - (extractedFiles s + 1)) rest else [])"
    proof (cases "extractedFiles s < 3")
      case True
      then have "3 - extractedFiles s = Suc (3 - (extractedFiles s + 1))" by simp
      with True show ?thesis by (simp del: One_nat_def)
    next
      case False
      then show ?thesis by simp
    qed
    show ?thesis
      using ih goes_on(1)
      by (auto simp: tk split: list.splits)
  qed
qed

lemma extract_entries_total:
  "list_all (entry_written pf cd) es \<Longrightarrow> \<exists>s'. fst (extract_entries pf cd t es s w) = Inr s'"
proof (induction es arbitrary: s w)
  case Nil
  then show ?case by simp
next
  case (Cons entry rest)
  show ?case
  proof (cases rule: extract_entries_turn[of pf cd entry t rest s w])
    case (fails e)
    with Cons.prems show ?thesis by simp
  next
    case goes_on
    from Cons.prems have "list_all (entry_written pf cd) rest" by simp
    from Cons.IH[OF this] show ?thesis unfolding goes_on(2) by blast
  qed
qed

lemma extract_entries_grows:
  "dirs w \<subseteq> dirs (snd (extract_entries pf cd t es s w))
   \<and> files w \<subseteq> files (snd (extract_entries pf cd t es s w))"
proof (induction es arbitrary: s w)
  case Nil
  then show ?case by simp
next
  case (Cons entry rest)
  let ?w2 = "snd (write_entry pf (path_join pf cd (path entry)) entry (snd (note_zip entry s w)))"
  have g: "dirs w \<subseteq> dirs ?w2" "files w \<subseteq> files ?w2"
    using write_entry_grows[of "snd (note_zip entry s w)" pf "path_join pf cd (path entry)" entry]
    by simp_all
  show ?case
  proof (cases rule: extract_entries_turn[of pf cd entry t rest s w])
    case (fails e)
    with g show ?thesis by simp
  next
    case goes_on
    let ?s3 = "fst (report_progress t (fst (note_zip entry s w)) ?w2)"
    let ?w3 = "snd (report_progress t (fst (note_zip entry s w)) ?w2)"
    have "dirs ?w3 \<subseteq> dirs (snd (extract_entries pf cd t rest ?s3 ?w3))"
      "files ?w3 \<subseteq> files (snd (extract_entries pf cd t rest ?s3 ?w3))"
      using Cons.IH[where s = ?s3 and w = ?w3] by simp_all
    with g show ?thesis unfolding goes_on(2) by auto
  qed
qed

lemma extract_entries_texts:
  "texts (snd (extract_entries pf cd t es s w)) = texts w"
proof (induction es arbitrary: s w)
  case Nil
  then show ?case by simp
next
  case (Cons entry rest)
  let ?w2 = "snd (write_entry pf (path_join pf cd (path entry)) entry (snd (note_zip entry s w)))"
  show ?case
  proof (cases rule: extract_entries_turn[of pf cd entry t rest s w])
    case (fails e)
    then show ?thesis by simp
  next
    case goes_on
    let ?s3 = "fst (report_progress t (fst (note_zip entry s w)) ?w2)"
    let ?w3 = "snd (report_progress t (fst (note_zip entry s w)) ?w2)"
    have "texts (snd (extract_entries pf cd t rest ?s3 ?w3)) = texts ?w3"
      by (rule Cons.IH[where s = ?s3 and w = ?w3])
    then show ?thesis unfolding goes_on(2) by simp
  qed
qed

lemma extract_entries_files:
  "files (snd (extract_entries pf cd t es s w))
     \<subseteq> files w \<union> (\<lambda>e. path_join pf cd (path e)) ` set es"
proof (induction es arbitrary: s w)
  case Nil
  then show ?case by simp
next
  case (Cons entry rest)
  let ?w2 = "snd (write_entry pf (path_join pf cd (path entry)) entry (snd (note_zip entry s w)))"
  have g: "files ?w2 \<subseteq> insert (path_join pf cd (path entry)) (files w)"
    using write_entry_files[of pf "path_join pf cd (path entry)" entry "snd (note_zip entry s w)"]
    by simp
  show ?case
  proof (cases rule: extract_entries_turn[of pf cd entry t rest s w])
    case (fails e)
    with g show ?thesis by auto
  next
    case goes_on
    let ?s3 = "fst (report_progress t (fst (note_zip entry s w)) ?w2)"
    let ?w3 = "snd (report_progress t (fst (note_zip entry s w)) ?w2)"
    have "files (snd (extract_entries pf cd t rest ?s3 ?w3))
            \<subseteq> files ?w3 \<union> (\<lambda>e. path_join pf cd (path e)) ` set rest"
      by (rule Cons.IH)
    with g show ?thesis unfolding goes_on(2) by auto
  qed
qed

text \<open>No candidate among the entries still in reach: nothing is reported, whatever the end.\<close>

lemma extract_entries_no_candidate:
  assumes "list_all (\<lambda>e. \<not> zip_name (path e)) (take (3 - extractedFiles s) es)"
  shows "xwalk_outputs (log (snd (extract_entries pf cd t es s w))) = xwalk_outputs (log w)
         \<and> detached (snd (extract_entries pf cd t es s w)) = detached w
         \<and> (\<forall>s'. fst (extract_entries pf cd t es s w) = Inr s' \<longrightarrow> zipFilePath s' = zipFilePath s)"
  using assms
proof (induction es arbitrary: s w)
  case Nil
  then show ?case by simp
next
  case (Cons entry rest)
  have no: "\<not> (extractedFiles s < 3 \<and> zip_name (path entry))"
    using Cons.prems by (auto simp: take_reach)
  show ?case
  proof (cases rule: extract_entries_turn[of pf cd entry t rest s w])
    case (fails e)
    with no show ?thesis by simp
  next
    case goes_on
    let ?w2 = "snd (write_entry pf (path_join pf cd (path entry)) entry (snd (note_zip entry s w)))"
    let ?s3 = "fst (report_progress t (fst (note_zip entry s w)) ?w2)"
    let ?w3 = "snd (report_progress t (fst (note_zip entry s w)) ?w2)"
    have "list_all (\<lambda>e. \<not> zip_name (path e)) (take (3 - extractedFiles ?s3) rest)"
      using Cons.prems by (cases "extractedFiles s < 3") (simp_all add: take_reach)
    from Cons.IH[OF this, where w = ?w3] no show ?thesis
      unfolding goes_on(2) by simp
  qed
qed

lemma percent_le:
  assumes "n \<le> t" "0 < t"
  shows "n * 100 div t \<le> (100::nat)"
proof -
  have "n * 100 \<le> 100 * t" using assms by simp
  then have "n * 100 div t \<le> 100 * t div t" by (rule div_le_mono)
  with assms show ?thesis by simp
qed

lemma extract_entries_progress:
  assumes "extractedFiles s + length es \<le> t"
  shows "\<exists>E. progress_steps (log (snd (extract_entries pf cd t es s w))) = progress_steps (log w) @ E
     \<and> (E = [] \<or> nextProgress s + 20 * length E \<le> 120)
     \<and> (\<forall>i. i \<in> set E \<longleftrightarrow>
            extractedFiles s < i
          \<and> i \<le> extractedFiles s + length (takeWhile (entry_written pf cd) es)
          \<and> nextProgress s + 20 * length (filter (\<lambda>j. j < i) E) \<le> i * 100 div t)"
  using assms
proof (induction es arbitrary: s w)
  case Nil
  then show ?case by simp
next
  case (Cons entry rest)
  define k where "k = extractedFiles s"
  define np where "np = nextProgress s"
  show ?case
  proof (cases rule: extract_entries_turn[of pf cd entry t rest s w])
    case (fails e)
    then show ?thesis by simp
  next
    case goes_on
    let ?w2 = "snd (write_entry pf (path_join pf cd (path entry)) entry (snd (note_zip entry s w)))"
    let ?s3 = "fst (report_progress t (fst (note_zip entry s w)) ?w2)"
    let ?w3 = "snd (report_progress t (fst (note_zip entry s w)) ?w2)"
    define em where "em \<longleftrightarrow> np \<le> (k + 1) * 100 div t"
    have k3: "extractedFiles ?s3 = k + 1" by (simp add: k_def)
    have np3: "nextProgress ?s3 = (if em then np + 20 else np)"
      by (simp add: em_def k_def np_def)
    have log3: "progress_steps (log ?w3) = progress_steps (log w) @ (if em then [k + 1] else [])"
      by (simp add: em_def k_def np_def)
    have le: "extractedFiles ?s3 + length rest \<le> t"
      using Cons.prems by simp
    have kt: "k + 1 \<le> t" "0 < t" using Cons.prems by (simp_all add: k_def)
    from Cons.IH[OF le, where w = ?w3] obtain E' where
      EE: "progress_steps (log (snd (extract_entries pf cd t rest ?s3 ?w3)))
             = progress_steps (log ?w3) @ E'
        \<and> (E' = [] \<or> nextProgress ?s3 + 20 * length E' \<le> 120)
        \<and> (\<forall>i. i \<in> set E' \<longleftrightarrow>
              extractedFiles ?s3 < i
            \<and> i \<le> extractedFiles ?s3 + length (takeWhile (entry_written pf cd) rest)
            \<and> nextProgress ?s3 + 20 * length (filter (\<lambda>j. j < i) E') \<le> i * 100 div t)"
      by (rule exE)
    note E1 = conjunct1[OF EE]
    note E2 = conjunct1[OF conjunct2[OF EE]]
    note E3 = spec[OF conjunct2[OF conjunct2[OF EE]]]
    have above: "\<And>j. j \<in> set E' \<Longrightarrow> k + 1 < j"
      using E3 unfolding k3 by blast
    have none_below: "\<And>i. i \<le> k + 1 \<Longrightarrow> filter (\<lambda>j. j < i) E' = []"
      using above by (fastforce simp: filter_empty_conv)
    define E where "E = (if em then [k + 1] else []) @ E'"
    have P1: "progress_steps (log (snd (extract_entries pf cd t (entry # rest) s w)))
                = progress_steps (log w) @ E"
      unfolding goes_on(2) E1 log3 E_def by simp
    have P2: "E = [] \<or> nextProgress s + 20 * length E \<le> 120"
    proof (cases em)
      case True
      then have "np \<le> 100" using percent_le[OF kt] by (simp add: em_def)
      with True E2[unfolded np3] show ?thesis by (auto simp: E_def np_def)
    next
      case False
      with E2[unfolded np3] show ?thesis by (simp add: E_def np_def)
    qed
    have tw: "length (takeWhile (entry_written pf cd) (entry # rest))
                = 1 + length (takeWhile (entry_written pf cd) rest)"
      using goes_on(1) by simp
    have P3: "i \<in> set E \<longleftrightarrow>
            extractedFiles s < i
          \<and> i \<le> extractedFiles s + length (takeWhile (entry_written pf cd) (entry # rest))
          \<and> nextProgress s + 20 * length (filter (\<lambda>j. j < i) E) \<le> i * 100 div t" for i
    proof -
      consider (low) "i \<le> k" | (here) "i = k + 1" | (high) "k + 1 < i" by linarith
      then show ?thesis
      proof cases
        case low
        then have "i \<notin> set E'" using above[of i] by auto
        with low show ?thesis by (auto simp: E_def k_def)
      next
        case here
        have "i \<notin> set E'" using above[of i] here by auto
        moreover have "filter (\<lambda>j. j < i) E = []"
          using none_below[of i] here by (simp add: E_def)
        ultimately show ?thesis
          using here unfolding tw by (auto simp: E_def em_def k_def np_def)
      next
        case high
        have f: "length (filter (\<lambda>j. j < i) E) = (if em then 1 else 0) + length (filter (\<lambda>j. j < i) E')"
          using high by (simp add: E_def)
        have "i \<in> set E \<longleftrightarrow> i \<in> set E'" using high by (simp add: E_def)
        also have "\<dots> \<longleftrightarrow> k + 1 < i
          \<and> i \<le> k + 1 + length (takeWhile (entry_written pf cd) rest)
          \<and> (if em then np + 20 else np) + 20 * length (filter (\<lambda>j. j < i) E') \<le> i * 100 div t"
          using E3[of i] unfolding k3 np3 by simp
        also have "\<dots> \<longleftrightarrow> extractedFiles s < i
          \<and> i \<le> extractedFiles s + length (takeWhile (entry_written pf cd) (entry # rest))
          \<and> nextProgress s + 20 * length (filter (\<lambda>j. j < i) E) \<le> i * 100 div t"
          unfolding tw f using high by (auto simp: k_def np_def)
        finally show ?thesis .
      qed
    qed
    show ?thesis
    proof (intro exI[of _ E] conjI allI)
      show "progress_steps (log (snd (extract_entries pf cd t (entry # rest) s w)))
              = progress_steps (log w) @ E" by (rule P1)
      show "E = [] \<or> nextProgress s + 20 * length E \<le> 120" by (rule P2)
      show "i \<in> set E \<longleftrightarrow>
            extractedFiles s < i
          \<and> i \<le> extractedFiles s + length (takeWhile (entry_written pf cd) (entry # rest))
          \<and> nextProgress s + 20 * length (filter (\<lambda>j. j < i) E) \<le> i * 100 div t" for i
        by (rule P3)
    qed
  qed
qed

section \<open>Properties of the extraction stage\<close>

lemma effects_of_append: "log w' = log w @ new \<Longrightarrow> effects_of w w' = new"
  by (simp add: effects_of_def)

text \<open>What a log holds of some kind is what it held before and what was added.\<close>

lemma xwalk_outputs_effects:
  assumes "\<exists>new. log w' = log w @ new"
  shows "xwalk_outputs (log w') = xwalk_outputs (log w) @ xwalk_outputs (effects_of w w')"
  using assms by (auto simp: effects_of_def)

lemma progress_steps_effects:
  assumes "\<exists>new. log w' = log w @ new"
  shows "progress_steps (log w') = progress_steps (log w) @ progress_steps (effects_of w w')"
  using assms by (auto simp: effects_of_def)

text \<open>
  A name passes the test of line 102 when it ends in four code units that
  \<open>toLowerCase\<close> turns into \<open>.zip\<close>; such a name is not empty.
\<close>

lemma endsWith_iff: "endsWith s suffix \<longleftrightarrow> (\<exists>stem. s = stem @ suffix)"
proof
  assume "endsWith s suffix"
  then obtain r where "rev s = rev suffix @ r"
    unfolding endsWith_def startsWith_iff by blast
  then have "rev (rev s) = rev (rev suffix @ r)" by (rule arg_cong)
  then have "s = rev r @ suffix" by simp
  then show "\<exists>stem. s = stem @ suffix" by blast
next
  assume "\<exists>stem. s = stem @ suffix"
  then obtain stem where "s = stem @ suffix" by blast
  then have "rev s = rev suffix @ rev stem" by simp
  then show "endsWith s suffix"
    unfolding endsWith_def startsWith_iff by blast
qed

lemma map_suffix_iff:
  "(\<exists>stem. map f p = stem @ suffix) \<longleftrightarrow> (\<exists>stem ext. p = stem @ ext \<and> map f ext = suffix)"
  by (auto simp: map_eq_append_conv)

lemma zip_name_iff:
  "zip_name p \<longleftrightarrow> (\<exists>stem ext. p = stem @ ext \<and> toLowerCase ext = ''.zip'')"
  unfolding zip_name_def endsWith_iff toLowerCase_def by (rule map_suffix_iff)


text \<open>\<open>extractZip\<close> on an archive that opens, by the way the loop ends.\<close>

lemma extractZip_fails:
  assumes "open_zip pf zp = Some directory"
    and "fst (extract_entries pf cd (length directory) directory
               initial_state w) = Inl e"
  shows "extractZip pf zp cd w =
    (if uncaught e then Inl e else Inl (FailedToExtract e),
     snd (extract_entries pf cd (length directory) directory
               initial_state w))"
  using assms by (simp add: extractZip_def Let_def case_prod_beta)

lemma extractZip_returns:
  assumes "open_zip pf zp = Some directory"
    and "fst (extract_entries pf cd (length directory) directory
               initial_state w) = Inr s'"
  shows "extractZip pf zp cd w =
    (Inr (length directory),
     emit [Info (Extracted cd)]
       (start_scan pf cd (zipFilePath s')
          (snd (extract_entries pf cd (length directory) directory
               initial_state w))))"
  using assms by (simp add: extractZip_def Let_def case_prod_beta)

lemma extractZip_not_opened:
  "open_zip pf zp = None \<Longrightarrow> extractZip pf zp cd w = (Inl (FailedToExtract (InvalidArchive zp)), w)"
  by (simp add: extractZip_def)

lemma start_scan_simps [simp]:
  "log (start_scan pf cd None w) = log w"
  "detached (start_scan pf cd None w) = detached w"
  "truthy z \<Longrightarrow> log (start_scan pf cd (Some z) w) = log w @ [Info (CurrentPath (path_join pf cd z))]"
  "truthy z \<Longrightarrow> detached (start_scan pf cd (Some z) w) =
      detached w @ [ParseOne (path_join pf cd z) ''META-INF/vault/filter.xml'' ''filter.xml'']"
  "files (start_scan pf cd c w) = files w"
  "dirs (start_scan pf cd c w) = dirs w"
  "texts (start_scan pf cd c w) = texts w"
  by (simp_all add: start_scan_def Let_def split: option.splits)

lemma start_scan_log: "\<exists>new. log (start_scan pf cd c w) = log w @ new
   \<and> xwalk_outputs new = [] \<and> progress_steps new = []"
  by (cases c) (auto simp: start_scan_def Let_def)

lemma extractZip_log:
  "\<exists>new. log (snd (extractZip pf zp cd w)) = log w @ new"
proof (cases "open_zip pf zp")
  case None
  then show ?thesis by (simp add: extractZip_not_opened)
next
  case (Some directory)
  obtain new where n: "log (snd (extract_entries pf cd (length directory) directory initial_state w)) = log w @ new"
    using extract_entries_log by blast
  show ?thesis
  proof (cases "fst (extract_entries pf cd (length directory) directory initial_state w)")
    case (Inl e)
    show ?thesis using extractZip_fails[OF Some Inl] n by simp
  next
    case (Inr s')
    obtain new2 where "log (start_scan pf cd (zipFilePath s')
         (snd (extract_entries pf cd (length directory) directory initial_state w)))
       = log (snd (extract_entries pf cd (length directory) directory initial_state w)) @ new2"
      using start_scan_log by blast
    then show ?thesis using extractZip_returns[OF Some Inr] n by simp
  qed
qed

lemma extractZip_count_iff:
  assumes "open_zip pf zp = Some directory"
  shows "fst (extractZip pf zp cd w) = Inr n
     \<longleftrightarrow> n = length directory \<and> list_all (entry_written pf cd) directory"
proof (cases "fst (extract_entries pf cd (length directory) directory
               initial_state w)")
  case (Inl e)
  have "\<not> list_all (entry_written pf cd) directory"
    using extract_entries_total[of pf cd directory "length directory"
        "initial_state" w] Inl by auto
  then show ?thesis using extractZip_fails[OF assms Inl] by simp
next
  case (Inr s')
  then have "extract_entries pf cd (length directory) directory
               initial_state w
             = (Inr s', snd (extract_entries pf cd (length directory) directory
               initial_state w))"
    by (metis prod.collapse)
  from extract_entries_candidates[OF this] have "list_all (entry_written pf cd) directory"
    by simp
  then show ?thesis using extractZip_returns[OF assms Inr] by auto
qed

lemma extractZip_xwalk_failed:
  assumes "open_zip pf zp = Some directory"
    "list_all (\<lambda>e. \<not> zip_name (path e)) (take 3 directory)"
  shows "xwalk_outputs (log (snd (extractZip pf zp cd w))) = xwalk_outputs (log w)
     \<and> detached (snd (extractZip pf zp cd w)) = detached w"
proof -
  have a: "list_all (\<lambda>e. \<not> zip_name (path e)) (take (3 - extractedFiles initial_state) directory)"
    using assms(2) by simp
  note nc = extract_entries_no_candidate[OF a, of pf cd "length directory" w]
  show ?thesis
  proof (cases "fst (extract_entries pf cd (length directory) directory initial_state w)")
    case (Inl e)
    show ?thesis using extractZip_fails[OF assms(1) Inl] nc by simp
  next
    case (Inr s')
    then have "zipFilePath s' = None" using nc by simp
    then show ?thesis using extractZip_returns[OF assms(1) Inr] nc by simp
  qed
qed


lemma extractZip_files:
  assumes "open_zip pf zp = Some directory"
  shows "files (snd (extractZip pf zp cd w))
     \<subseteq> files w \<union> (\<lambda>e. path_join pf cd (path e)) ` set directory"
proof (cases "fst (extract_entries pf cd (length directory) directory initial_state w)")
  case (Inl e)
  show ?thesis
    using extractZip_fails[OF assms Inl]
      extract_entries_files[of pf cd "length directory" directory initial_state w] by simp
next
  case (Inr s')
  show ?thesis
    using extractZip_returns[OF assms Inr]
      extract_entries_files[of pf cd "length directory" directory initial_state w] by simp
qed

lemma extractZip_grows:
  "dirs w \<subseteq> dirs (snd (extractZip pf zp cd w))"
proof (cases "open_zip pf zp")
  case None
  then show ?thesis by (simp add: extractZip_not_opened)
next
  case (Some directory)
  note g = extract_entries_grows[of w pf cd "length directory" directory initial_state]
  show ?thesis
  proof (cases "fst (extract_entries pf cd (length directory) directory initial_state w)")
    case (Inl e)
    show ?thesis using extractZip_fails[OF Some Inl] g by simp
  next
    case (Inr s')
    show ?thesis using extractZip_returns[OF Some Inr] g by simp
  qed
qed

lemma extractZip_keeps:
  "files w \<subseteq> files (snd (extractZip pf zp cd w))"
  "texts (snd (extractZip pf zp cd w)) = texts w"
proof -
  show "files w \<subseteq> files (snd (extractZip pf zp cd w))"
  proof (cases "open_zip pf zp")
    case None
    then show ?thesis by (simp add: extractZip_not_opened)
  next
    case (Some directory)
    note g = extract_entries_grows[of w pf cd "length directory" directory initial_state]
    show ?thesis
    proof (cases "fst (extract_entries pf cd (length directory) directory initial_state w)")
      case (Inl e)
      show ?thesis using extractZip_fails[OF Some Inl] g by simp
    next
      case (Inr s')
      show ?thesis using extractZip_returns[OF Some Inr] g by simp
    qed
  qed
  show "texts (snd (extractZip pf zp cd w)) = texts w"
  proof (cases "open_zip pf zp")
    case None
    then show ?thesis by (simp add: extractZip_not_opened)
  next
    case (Some directory)
    note g = extract_entries_texts[of pf cd "length directory" directory initial_state w]
    show ?thesis
    proof (cases "fst (extract_entries pf cd (length directory) directory initial_state w)")
      case (Inl e)
      show ?thesis using extractZip_fails[OF Some Inl] g by simp
    next
      case (Inr s')
      show ?thesis using extractZip_returns[OF Some Inr] g by simp
    qed
  qed
qed

lemma extractZip_steps:
  assumes "open_zip pf zp = Some directory"
  shows "\<exists>E. progress_steps (log (snd (extractZip pf zp cd w))) = progress_steps (log w) @ E
     \<and> length E \<le> 5
     \<and> (\<forall>i. i \<in> set E \<longleftrightarrow>
            1 \<le> i
          \<and> i \<le> length (takeWhile (entry_written pf cd) directory)
          \<and> 20 * (1 + length (filter (\<lambda>j. j < i) E)) \<le> i * 100 div length directory)"
proof -
  have "extractedFiles initial_state + length directory \<le> length directory" by simp
  from extract_entries_progress[OF this, of pf cd w] obtain E where
    EE: "progress_steps (log (snd (extract_entries pf cd (length directory) directory initial_state w)))
           = progress_steps (log w) @ E
     \<and> (E = [] \<or> nextProgress initial_state + 20 * length E \<le> 120)
     \<and> (\<forall>i. i \<in> set E \<longleftrightarrow>
            extractedFiles initial_state < i
          \<and> i \<le> extractedFiles initial_state + length (takeWhile (entry_written pf cd) directory)
          \<and> nextProgress initial_state + 20 * length (filter (\<lambda>j. j < i) E) \<le> i * 100 div length directory)"
    by (rule exE)
  have l: "length E \<le> 5" using conjunct1[OF conjunct2[OF EE]] by auto
  have c: "i \<in> set E \<longleftrightarrow>
            1 \<le> i
          \<and> i \<le> length (takeWhile (entry_written pf cd) directory)
          \<and> 20 * (1 + length (filter (\<lambda>j. j < i) E)) \<le> i * 100 div length directory" for i
    using spec[OF conjunct2[OF conjunct2[OF EE]], of i] by (simp add: Suc_le_eq)
  have p: "progress_steps (log (snd (extractZip pf zp cd w))) = progress_steps (log w) @ E"
  proof (cases "fst (extract_entries pf cd (length directory) directory initial_state w)")
    case (Inl e)
    show ?thesis using extractZip_fails[OF assms Inl] conjunct1[OF EE] by simp
  next
    case (Inr s')
    obtain new2 where "log (start_scan pf cd (zipFilePath s')
         (snd (extract_entries pf cd (length directory) directory initial_state w)))
       = log (snd (extract_entries pf cd (length directory) directory initial_state w)) @ new2"
      "progress_steps new2 = []"
      using start_scan_log by blast
    then show ?thesis using extractZip_returns[OF assms Inr] conjunct1[OF EE] by simp
  qed
  from p l c show ?thesis by (intro exI[of _ E] conjI allI)
qed

section \<open>The actions on a sample platform\<close>

text \<open>The test of line 102, for evaluation on given names.\<close>

lemma note_zip_eq:
  "note_zip entry s w =
     (if extractedFiles s < 3 \<and> zip_name (path entry)
      then (s\<lparr>zipFilePath := Some (path entry)\<rparr>,
            emit [SetOutput ''xwalk_zip'' (OutString (path entry)), Info (CpZip (path entry))] w)
      else (s, w))"
  by (simp add: note_zip_def zip_name_def)

lemma sample_names:
  "\<not> zip_name ''jcr_root/''" "zip_name ''a.zip''" "zip_name ''B.ZIP''" "zip_name ''c.zip''"
  "\<not> zip_name ''docs/index.docx''" "\<not> zip_name ''readme.txt''" "zip_name ''late.zip''"
  by code_simp+

lemma clash_names:
  "\<not> zip_name ''x''" "zip_name ''n.zip''" "\<not> zip_name ''x/y.txt''" "\<not> zip_name ''z.txt''"
  by code_simp+

lemma sample_platform_simps [simp]:
  "path_join (sample_platform d r) a b = a @ ''/'' @ b"
  "tmpdir (sample_platform d r) = ''/tmp''"
  "url_valid (sample_platform d r) u = startsWith u ''https://''"
  "mkdtempSync (sample_platform d r) prefix = Some (prefix @ ''Ab12Cd'')"
  "mkdir_fails (sample_platform d r) p = False"
  "write_fails (sample_platform d r) p = False"
  "unlink_fails (sample_platform d r) p = r"
  "fetch (sample_platform d r) u = Some \<lparr>ok = True, status = 200, statusText = ''OK'', body_complete = True\<rparr>"
  "open_zip (sample_platform d r) p = Some d"
  "stream_fails (sample_platform d r) p = False"
  "parse_one (sample_platform d r) source entryName = Some sample_manifest"
  "read_fails (sample_platform d r) p = False"
  "cwd (sample_platform d r) = ''/work''"
  "path_isAbsolute (sample_platform d r) p = startsWith p ''/''"
  "path_dirname (sample_platform d r) p =
     (let d = rev (tl (dropWhile (\<lambda>c. c \<noteq> CHR ''/'') (rev p))) in if d = [] then ''/'' else d)"
  by (simp_all add: sample_platform_def)

lemma sample_written: "list_all (entry_written (sample_platform d r) cd) es"
  by (induction es) (simp_all add: entry_written_def Let_def)

lemma sample_candidates:
  "filter zip_name (map path (take 3 sample_archive)) = [''a.zip'', ''B.ZIP'']"
  by (simp add: sample_archive_def sample_names)

lemma sample_url: "includes_str ''https://spacecat.example/z.zip'' ''spacecat''"
  "startsWith ''https://spacecat.example/z.zip'' ''https://''"
  "\<not> includes_str ''https://example.com/import.zip'' ''spacecat''"
  by simp_all

text \<open>
  The progress messages of two archives, by the count of entries each carries: five
  entries give a message at each fifth, four entries one at each quarter.
\<close>

lemma sample_progress:
  "progress_steps (effects_of empty_world
     (snd (extractZip (sample_platform sample_archive False) ''/tmp/import.zip'' ''/tmp/c''
        empty_world))) = [1, 2, 3, 4, 5]"
  "progress_steps (effects_of empty_world
     (snd (extractZip (sample_platform late_zip_archive False) ''/tmp/import.zip'' ''/tmp/c''
        empty_world))) = [1, 2, 3, 4]"
  by (simp_all add: extractZip_def effects_of_def sample_archive_def late_zip_archive_def
      empty_world_def emit_def note_zip_eq write_entry_def report_progress_def start_scan_def
      truthy_def initial_state_def sample_names Let_def)

section \<open>The claims on the extraction\<close>

text \<open>
  C1, as the code has it. When the loop ends without an error, the output \<open>xwalk_zip\<close>
  has been given, in archive order, the name of each of the first three entries that ends
  in \<open>.zip\<close>, letters compared without case, and the variable \<open>zipFilePath\<close> holds the
  last of them: a later candidate among the first three replaces an earlier one. Entries
  after the third are never candidates.
\<close>

theorem extract_entries_last_candidate:
  assumes "fst (extract_entries pf contentsDir totalFiles directory initial_state w) = Inr s'"
  shows "xwalk_outputs (effects_of w
             (snd (extract_entries pf contentsDir totalFiles directory initial_state w)))
           = filter zip_name (map path (take 3 directory))
     \<and> zipFilePath s' =
         (case rev (filter zip_name (map path (take 3 directory))) of
            [] \<Rightarrow> None
          | z # zs \<Rightarrow> Some z)"
proof -
  define w' where "w' = snd (extract_entries pf contentsDir totalFiles directory initial_state w)"
  have r: "extract_entries pf contentsDir totalFiles directory initial_state w = (Inr s', w')"
    using assms by (simp add: w'_def prod_eq_iff)
  have "\<exists>new. log w' = log w @ new"
    unfolding w'_def by (rule extract_entries_log)
  from xwalk_outputs_effects[OF this] extract_entries_candidates[OF r]
  show ?thesis unfolding w'_def[symmetric] by (auto split: list.splits)
qed

text \<open>The sample archive: \<open>a.zip\<close> and \<open>B.ZIP\<close> are reported, \<open>B.ZIP\<close> is kept.\<close>

theorem extract_entries_last_candidate_witness:
  "fst (extract_entries (sample_platform sample_archive False) ''/tmp/c'' 5 sample_archive
          initial_state empty_world)
     = Inr \<lparr>extractedFiles = 5, nextProgress = 120, zipFilePath = Some ''B.ZIP''\<rparr>
   \<and> xwalk_outputs (effects_of empty_world
         (snd (extract_entries (sample_platform sample_archive False) ''/tmp/c'' 5 sample_archive
            initial_state empty_world)))
     = [''a.zip'', ''B.ZIP'']
   \<and> zipFilePath \<lparr>extractedFiles = 5, nextProgress = 120, zipFilePath = Some ''B.ZIP''\<rparr>
     = Some ''B.ZIP''"
proof -
  have h: "fst (extract_entries (sample_platform sample_archive False) ''/tmp/c'' 5 sample_archive
          initial_state empty_world)
     = Inr \<lparr>extractedFiles = 5, nextProgress = 120, zipFilePath = Some ''B.ZIP''\<rparr>"
    by (simp add: sample_archive_def empty_world_def emit_def note_zip_eq write_entry_def
      report_progress_def initial_state_def sample_names Let_def)
  from extract_entries_last_candidate[OF h] h show ?thesis
    by (simp add: sample_candidates)
qed

text \<open>
  The claim as the specification states it fails on the sample archive: the first
  candidate among the first three entries is \<open>a.zip\<close>, two candidates are reported, and
  the one recorded at the end is \<open>B.ZIP\<close>.
\<close>

theorem first_candidate_overwritten:
  "fst (extract_entries (sample_platform sample_archive False) ''/tmp/c'' 5 sample_archive
          initial_state empty_world)
     = Inr \<lparr>extractedFiles = 5, nextProgress = 120, zipFilePath = Some ''B.ZIP''\<rparr>
   \<and> xwalk_outputs (log (snd (extract_entries (sample_platform sample_archive False) ''/tmp/c'' 5
          sample_archive initial_state empty_world)))
     = [''a.zip'', ''B.ZIP'']
   \<and> List.find zip_name (map path (take 3 sample_archive)) = Some ''a.zip''"
  by (simp add: sample_archive_def empty_world_def emit_def note_zip_eq write_entry_def
      report_progress_def initial_state_def sample_names Let_def)

text \<open>
  C9. When the archive opens and none of its first three entries has a name that ends
  in \<open>.zip\<close>, letters compared without case, the extraction gives the output
  \<open>xwalk_zip\<close> no value and starts no manifest scan, whether it then returns or fails.
\<close>

theorem extractZip_no_candidate:
  assumes "open_zip pf zipPath = Some directory"
    and "list_all (\<lambda>entry. \<not> zip_name (path entry)) (take 3 directory)"
  shows "xwalk_outputs (effects_of w (snd (extractZip pf zipPath contentsDir w))) = []
     \<and> detached (snd (extractZip pf zipPath contentsDir w)) = detached w"
  using extractZip_xwalk_failed[OF assms, of contentsDir w]
    xwalk_outputs_effects[OF extractZip_log, of pf zipPath contentsDir w]
  by simp

text \<open>An archive whose only \<open>.zip\<close> entry is the fourth.\<close>

theorem extractZip_no_candidate_witness:
  "open_zip (sample_platform late_zip_archive False) ''/tmp/import.zip'' = Some late_zip_archive
   \<and> list_all (\<lambda>entry. \<not> zip_name (path entry)) (take 3 late_zip_archive)
   \<and> xwalk_outputs (effects_of empty_world
        (snd (extractZip (sample_platform late_zip_archive False) ''/tmp/import.zip'' ''/tmp/c''
           empty_world))) = []
   \<and> detached (snd (extractZip (sample_platform late_zip_archive False) ''/tmp/import.zip''
        ''/tmp/c'' empty_world)) = []"
proof -
  have h1: "open_zip (sample_platform late_zip_archive False) ''/tmp/import.zip''
              = Some late_zip_archive" by simp
  have h2: "list_all (\<lambda>entry. \<not> zip_name (path entry)) (take 3 late_zip_archive)"
    by (simp add: late_zip_archive_def sample_names)
  from extractZip_no_candidate[OF h1 h2, of empty_world "''/tmp/c''"] h1 h2 show ?thesis
    by (simp add: empty_world_def)
qed

text \<open>
  C6, as the code has it. For an archive that opens, the extraction returns the number
  of entries of the archive's directory when every entry is written; when some entry is
  not written it returns no number; and no other number is ever returned.
\<close>

theorem extractZip_file_count:
  assumes "open_zip pf zipPath = Some directory"
  shows "(list_all (entry_written pf contentsDir) directory
            \<longrightarrow> fst (extractZip pf zipPath contentsDir w) = Inr (length directory))
     \<and> (\<not> list_all (entry_written pf contentsDir) directory
            \<longrightarrow> (\<exists>e. fst (extractZip pf zipPath contentsDir w) = Inl e))
     \<and> (\<forall>n. fst (extractZip pf zipPath contentsDir w) = Inr n \<longrightarrow> n = length directory)"
proof -
  note i = extractZip_count_iff[OF assms, of contentsDir w]
  have a: "list_all (entry_written pf contentsDir) directory
            \<longrightarrow> fst (extractZip pf zipPath contentsDir w) = Inr (length directory)"
    using i by simp
  have b: "\<not> list_all (entry_written pf contentsDir) directory
            \<longrightarrow> (\<exists>e. fst (extractZip pf zipPath contentsDir w) = Inl e)"
  proof (cases "fst (extractZip pf zipPath contentsDir w)")
    case (Inl e)
    then show ?thesis by simp
  next
    case (Inr n)
    then show ?thesis using extractZip_count_iff[OF assms, of contentsDir w n] by simp
  qed
  have c: "\<forall>n. fst (extractZip pf zipPath contentsDir w) = Inr n \<longrightarrow> n = length directory"
    using i by simp
  show ?thesis by (rule conjI[OF a conjI[OF b c]])
qed

theorem extractZip_file_count_witness:
  "open_zip (sample_platform sample_archive False) ''/tmp/import.zip'' = Some sample_archive
   \<and> list_all (entry_written (sample_platform sample_archive False) ''/tmp/c'') sample_archive
   \<and> fst (extractZip (sample_platform sample_archive False) ''/tmp/import.zip'' ''/tmp/c''
        empty_world) = Inr 5"
proof -
  have h1: "open_zip (sample_platform sample_archive False) ''/tmp/import.zip''
              = Some sample_archive" by simp
  have h2: "list_all (entry_written (sample_platform sample_archive False) ''/tmp/c'') sample_archive"
    by (rule sample_written)
  have l: "length sample_archive = 5" by (simp add: sample_archive_def)
  have r: "fst (extractZip (sample_platform sample_archive False) ''/tmp/import.zip'' ''/tmp/c''
        empty_world) = Inr (length sample_archive)"
    by (rule mp[OF conjunct1[OF extractZip_file_count[OF h1, of "''/tmp/c''" empty_world]] h2])
  show ?thesis by (rule conjI[OF h1 conjI[OF h2 r[unfolded l]]])
qed

text \<open>
  The claim as the specification states it fails on an archive that opens and names
  \<open>x\<close> as a file and then as the directory of \<open>x/y.txt\<close>: the first two entries are
  written, the directory \<open>x\<close> cannot be made for the third, and the extraction throws
  \<open>Failed to extract zip\<close> where the claim has it return the count of four.
\<close>

theorem extractZip_throws_on_clash:
  "open_zip clash_platform ''/tmp/import.zip'' = Some clash_archive
   \<and> fst (extractZip clash_platform ''/tmp/import.zip'' ''/tmp/c'' empty_world)
       = Inl (FailedToExtract (FsError ''/tmp/c/x''))
   \<and> files (snd (extractZip clash_platform ''/tmp/import.zip'' ''/tmp/c'' empty_world))
       = {''/tmp/c/x'', ''/tmp/c/n.zip''}"
  by (simp add: extractZip_def clash_platform_def clash_archive_def
      empty_world_def emit_def note_zip_eq write_entry_def
      report_progress_def initial_state_def clash_names Let_def insert_commute)

text \<open>
  C5. Whatever the archive, the extraction emits at most five progress messages. When
  the archive opens, a message is emitted after the \<open>i\<close>-th entry exactly when that entry
  is written and the percentage \<open>i * 100 div total\<close> has reached the next multiple of
  twenty not yet used, which is twenty times one more than the number of messages
  emitted before.
\<close>

theorem extractZip_progress:
  "length (progress_steps (effects_of w (snd (extractZip pf zipPath contentsDir w)))) \<le> 5
   \<and> (\<forall>directory i. open_zip pf zipPath = Some directory \<longrightarrow>
        (i \<in> set (progress_steps (effects_of w (snd (extractZip pf zipPath contentsDir w))))
         \<longleftrightarrow> 1 \<le> i
           \<and> i \<le> length (takeWhile (entry_written pf contentsDir) directory)
           \<and> 20 * (1 + length (filter (\<lambda>j. j < i)
                  (progress_steps (effects_of w (snd (extractZip pf zipPath contentsDir w))))))
               \<le> i * 100 div length directory))"
proof (cases "open_zip pf zipPath")
  case None
  then show ?thesis by (simp add: extractZip_not_opened effects_of_def)
next
  case (Some directory)
  from extractZip_steps[OF Some, of contentsDir w] obtain E where
    EE: "progress_steps (log (snd (extractZip pf zipPath contentsDir w))) = progress_steps (log w) @ E
     \<and> length E \<le> 5
     \<and> (\<forall>i. i \<in> set E \<longleftrightarrow>
            1 \<le> i
          \<and> i \<le> length (takeWhile (entry_written pf contentsDir) directory)
          \<and> 20 * (1 + length (filter (\<lambda>j. j < i) E)) \<le> i * 100 div length directory)"
    by (rule exE)
  have E_eq: "progress_steps (effects_of w (snd (extractZip pf zipPath contentsDir w))) = E"
    using conjunct1[OF EE] progress_steps_effects[OF extractZip_log, of pf zipPath contentsDir w]
    by simp
  show ?thesis
    unfolding E_eq
  proof (intro conjI allI impI)
    show "length E \<le> 5" by (rule conjunct1[OF conjunct2[OF EE]])
  next
    fix d i
    assume "open_zip pf zipPath = Some d"
    then have d: "d = directory" using Some by simp
    show "i \<in> set E \<longleftrightarrow> 1 \<le> i
           \<and> i \<le> length (takeWhile (entry_written pf contentsDir) d)
           \<and> 20 * (1 + length (filter (\<lambda>j. j < i) E)) \<le> i * 100 div length d"
      unfolding d by (rule spec[OF conjunct2[OF conjunct2[OF EE]]])
  qed
qed

theorem extractZip_progress_witness:
  "open_zip (sample_platform sample_archive False) ''/tmp/import.zip'' = Some sample_archive
   \<and> length (progress_steps (effects_of empty_world
        (snd (extractZip (sample_platform sample_archive False) ''/tmp/import.zip'' ''/tmp/c''
           empty_world)))) \<le> 5
   \<and> (3 \<in> set (progress_steps (effects_of empty_world
        (snd (extractZip (sample_platform sample_archive False) ''/tmp/import.zip'' ''/tmp/c''
           empty_world))))
        \<longleftrightarrow> 1 \<le> (3::nat)
          \<and> 3 \<le> length (takeWhile (entry_written (sample_platform sample_archive False) ''/tmp/c'')
                  sample_archive)
          \<and> 20 * (1 + length (filter (\<lambda>j. j < 3) (progress_steps (effects_of empty_world
               (snd (extractZip (sample_platform sample_archive False) ''/tmp/import.zip''
                  ''/tmp/c'' empty_world))))))
             \<le> 3 * 100 div length sample_archive)"
proof -
  have h1: "open_zip (sample_platform sample_archive False) ''/tmp/import.zip''
              = Some sample_archive" by simp
  from extractZip_progress[of empty_world "sample_platform sample_archive False"
      "''/tmp/import.zip''" "''/tmp/c''"] h1
  show ?thesis by blast
qed

section \<open>The claims on the run\<close>

lemma createTempDirectory_frame:
  "files (snd (createTempDirectory pf w)) = files w"
  "dirs w \<subseteq> dirs (snd (createTempDirectory pf w))"
  by (auto simp: createTempDirectory_def Let_def split: option.splits)

lemma createTempDirectory_made:
  assumes "fst (createTempDirectory pf w) = Inr tempDir"
  shows "mkdtempSync pf (path_join pf (tmpdir pf) ''sta-'') = Some tempDir"
    and "path_join pf tempDir CONTENT_DIR_NAME \<in> dirs (snd (createTempDirectory pf w))"
  using assms by (auto simp: createTempDirectory_def Let_def split: option.splits if_splits)

lemma fetchZip_frame:
  "dirs (snd (fetchZip pf u z w)) = dirs w"
  by (simp add: fetchZip_def Let_def split: option.splits)

text \<open>The \<open>try\<close> block never takes a directory away.\<close>

lemma run_try_stopped:
  "\<not> (includes_str u ''spacecat'' \<and> url_valid pf u) \<Longrightarrow> snd (snd (run_try pf u w)) = w"
  by (auto simp: run_try_def)

lemma run_try_after_temp:
  assumes "includes_str u ''spacecat''" "url_valid pf u"
  shows "dirs (snd (createTempDirectory pf w)) \<subseteq> dirs (snd (snd (run_try pf u w)))"
proof (cases "fst (createTempDirectory pf w)")
  case (Inl e)
  then show ?thesis using assms by (simp add: run_try_def case_prod_beta)
next
  case (Inr tempDir)
  define w1 where "w1 = snd (createTempDirectory pf w)"
  define z where "z = path_join pf tempDir ZIP_NAME"
  define cd where "cd = path_join pf tempDir CONTENT_DIR_NAME"
  define w2 where "w2 = snd (fetchZip pf u z w1)"
  define w3 where "w3 = snd (extractZip pf z cd w2)"
  have d2: "dirs w2 = dirs w1" by (simp add: w2_def fetchZip_frame)
  have d3: "dirs w2 \<subseteq> dirs w3" unfolding w3_def by (rule extractZip_grows)
  show ?thesis
  proof (cases "fst (fetchZip pf u z w1)")
    case (Inl e)
    then have "snd (snd (run_try pf u w)) = w2"
      using assms Inr by (simp add: run_try_def case_prod_beta Let_def w1_def w2_def z_def)
    then show ?thesis using d2 by (simp add: w1_def)
  next
    case fetched: (Inr x)
    show ?thesis
    proof (cases "fst (extractZip pf z cd w2)")
      case (Inl e)
      then have "snd (snd (run_try pf u w)) = w3"
        using assms Inr fetched
        by (simp add: run_try_def case_prod_beta Let_def w1_def w2_def w3_def z_def cd_def)
      then show ?thesis using d2 d3 by (simp add: w1_def)
    next
      case (Inr fileCount)
      then have "snd (snd (run_try pf u w)) =
          emit [SetOutput ''temp_dir'' (OutString tempDir),
                SetOutput ''file_count'' (OutNumber fileCount)] w3"
        using assms \<open>fst (createTempDirectory pf w) = Inr tempDir\<close> fetched
        by (simp add: run_try_def case_prod_beta Let_def w1_def w2_def w3_def z_def cd_def)
      then show ?thesis using d2 d3 by (simp add: w1_def)
    qed
  qed
qed

lemma run_try_dirs:
  "dirs w \<subseteq> dirs (snd (snd (run_try pf u w)))"
proof (cases "includes_str u ''spacecat'' \<and> url_valid pf u")
  case True
  then show ?thesis
    using run_try_after_temp[of u pf w] createTempDirectory_frame(2)[of w pf] by blast
next
  case False
  then show ?thesis by (simp add: run_try_stopped)
qed

lemma run_try_contents:
  assumes "includes_str u ''spacecat''" "url_valid pf u"
    "fst (createTempDirectory pf w) = Inr tempDir"
  shows "path_join pf tempDir CONTENT_DIR_NAME \<in> dirs (snd (snd (run_try pf u w)))"
  using run_try_after_temp[OF assms(1,2), of w] createTempDirectory_made(2)[OF assms(3)]
  by blast

lemma run_try_destination:
  "fst (snd (run_try pf u w)) = None \<and> files (snd (snd (run_try pf u w))) = files w
   \<or> fst (snd (run_try pf u w)) = zip_destination pf \<and> zip_destination pf \<noteq> None"
  using createTempDirectory_made(1)[of pf w]
  by (auto simp: run_try_def Let_def case_prod_beta zip_destination_def createTempDirectory_frame
      split: sum.splits)

lemma unlink_quietly_simps [simp]:
  "dirs (unlink_quietly pf z w) = dirs w"
  "\<not> unlink_fails pf z \<Longrightarrow> z \<notin> files (unlink_quietly pf z w)"
  "detached (unlink_quietly pf z w) = detached w"
  "texts (unlink_quietly pf z w) = texts w"
  by (auto simp: unlink_quietly_def)

lemma cleanup_simps [simp]:
  "dirs (cleanup pf zd w) = dirs w"
  "detached (cleanup pf zd w) = detached w"
  "texts (cleanup pf zd w) = texts w"
  by (simp_all add: cleanup_def split: option.splits)

lemma before_cleanup_simps [simp]:
  "files (before_cleanup pf u w) = files (snd (snd (run_try pf u w)))"
  "dirs (before_cleanup pf u w) = dirs (snd (snd (run_try pf u w)))"
  "detached (before_cleanup pf u w) = detached (snd (snd (run_try pf u w)))"
  "texts (before_cleanup pf u w) = texts (snd (snd (run_try pf u w)))"
  by (simp_all add: before_cleanup_def case_prod_beta split: sum.splits)

text \<open>
  \<open>run\<close> by its two ways of ending: the process is ended inside the \<open>try\<close> block and the
  world is left as it is there, or the \<open>finally\<close> block is run after the \<open>catch\<close>.
\<close>

lemma run_unfold:
  "run pf u w =
     (if run_killed pf u w then snd (snd (run_try pf u w))
      else cleanup pf (fst (snd (run_try pf u w))) (before_cleanup pf u w))"
  by (simp add: run_def run_killed_def before_cleanup_def case_prod_beta split: sum.splits)

lemma run_dirs: "dirs (run pf u w) = dirs (snd (snd (run_try pf u w)))"
  by (simp add: run_unfold)



lemma fetchZip_written:
  assumes "fetch pf u = Some response" "ok response" "\<not> write_fails pf z"
  shows "z \<in> files (snd (fetchZip pf u z w))"
  using assms by (simp add: fetchZip_def Let_def split: option.splits)

text \<open>Once the download has written the archive, it is on disk when the \<open>try\<close> block is left.\<close>

lemma run_try_archive:
  assumes "includes_str u ''spacecat''" "url_valid pf u"
    "fst (createTempDirectory pf w) = Inr tempDir"
    "fetch pf u = Some response" "ok response"
    "\<not> write_fails pf (path_join pf tempDir ZIP_NAME)"
  shows "path_join pf tempDir ZIP_NAME \<in> files (snd (snd (run_try pf u w)))"
proof -
  define w1 where "w1 = snd (createTempDirectory pf w)"
  define z where "z = path_join pf tempDir ZIP_NAME"
  define cd where "cd = path_join pf tempDir CONTENT_DIR_NAME"
  define w2 where "w2 = snd (fetchZip pf u z w1)"
  define w3 where "w3 = snd (extractZip pf z cd w2)"
  have f2: "z \<in> files w2"
    unfolding w2_def z_def by (rule fetchZip_written[OF assms(4,5,6)])
  have "files w2 \<subseteq> files w3" unfolding w3_def by (rule extractZip_keeps(1))
  with f2 have f3: "z \<in> files w3" by blast
  show ?thesis
  proof (cases "fst (fetchZip pf u z w1)")
    case (Inl e)
    then have "snd (snd (run_try pf u w)) = w2"
      using assms(1,2,3) by (simp add: run_try_def case_prod_beta Let_def w1_def w2_def z_def)
    then show ?thesis using f2 by (simp add: z_def)
  next
    case fetched: (Inr x)
    show ?thesis
    proof (cases "fst (extractZip pf z cd w2)")
      case (Inl e)
      then have "snd (snd (run_try pf u w)) = w3"
        using assms(1,2,3) fetched
        by (simp add: run_try_def case_prod_beta Let_def w1_def w2_def w3_def z_def cd_def)
      then show ?thesis using f3 by (simp add: z_def)
    next
      case (Inr fileCount)
      then have "snd (snd (run_try pf u w)) =
          emit [SetOutput ''temp_dir'' (OutString tempDir),
                SetOutput ''file_count'' (OutNumber fileCount)] w3"
        using assms(1,2,3) fetched
        by (simp add: run_try_def case_prod_beta Let_def w1_def w2_def w3_def z_def cd_def)
      then show ?thesis using f3 by (simp add: z_def)
    qed
  qed
qed


text \<open>Only the stream of an entry ends the process inside \<open>run\<close>.\<close>

lemma write_entry_uncaught:
  assumes "fst (write_entry pf fullPath entry w) = Inl e" and "uncaught e"
  shows "stream_fails pf (path entry)"
  using assms by (auto simp: write_entry_def Let_def split: if_splits)

lemma extract_entries_uncaught:
  assumes "fst (extract_entries pf cd t es s w) = Inl e" and "uncaught e"
  shows "\<exists>entry\<in>set es. stream_fails pf (path entry)"
  using assms
proof (induction es arbitrary: s w)
  case Nil
  then show ?case by simp
next
  case (Cons entry rest)
  let ?w2 = "snd (write_entry pf (path_join pf cd (path entry)) entry (snd (note_zip entry s w)))"
  let ?s3 = "fst (report_progress t (fst (note_zip entry s w)) ?w2)"
  let ?w3 = "snd (report_progress t (fst (note_zip entry s w)) ?w2)"
  show ?case
  proof (cases "fst (write_entry pf (path_join pf cd (path entry)) entry (snd (note_zip entry s w)))")
    case (Inl e')
    then have "fst (extract_entries pf cd t (entry # rest) s w) = Inl e'"
      by (simp add: Let_def case_prod_beta)
    with Cons.prems have "e' = e" by simp
    with Inl Cons.prems(2) have "stream_fails pf (path entry)"
      by (auto intro: write_entry_uncaught)
    then show ?thesis by simp
  next
    case (Inr u)
    then have "extract_entries pf cd t (entry # rest) s w = extract_entries pf cd t rest ?s3 ?w3"
      by (simp add: Let_def case_prod_beta)
    with Cons.prems have "fst (extract_entries pf cd t rest ?s3 ?w3) = Inl e" by simp
    from Cons.IH[OF this Cons.prems(2)] show ?thesis by simp
  qed
qed

lemma extractZip_uncaught:
  assumes "fst (extractZip pf zp cd w) = Inl e" and "uncaught e"
  shows "\<exists>p. stream_fails pf p"
proof (cases "open_zip pf zp")
  case None
  then show ?thesis using assms by (auto simp: extractZip_not_opened)
next
  case (Some directory)
  show ?thesis
  proof (cases "fst (extract_entries pf cd (length directory) directory initial_state w)")
    case (Inl e')
    have "uncaught e'" "e' = e"
      using extractZip_fails[OF Some Inl] assms by (auto split: if_splits)
    then show ?thesis using extract_entries_uncaught[OF Inl] by blast
  next
    case (Inr s')
    then show ?thesis using extractZip_returns[OF Some Inr] assms by simp
  qed
qed

lemma run_killed_stream:
  assumes "run_killed pf u w"
  shows "\<exists>p. stream_fails pf p"
proof -
  from assms obtain e where e: "fst (run_try pf u w) = Inl e" "uncaught e"
    by (auto simp: run_killed_def split: sum.splits)
  have c: "\<not> uncaught e'" if "fst (createTempDirectory pf w) = Inl e'" for e'
    using that by (auto simp: createTempDirectory_def Let_def split: option.splits if_splits)
  have f: "\<not> uncaught e'" if "fst (fetchZip pf u z w') = Inl e'" for e' z w'
    using that by (auto simp: fetchZip_def Let_def split: option.splits if_splits)
  show ?thesis
    using e c f extractZip_uncaught
    by (auto simp: run_try_def Let_def case_prod_beta split: if_splits sum.splits)
qed

text \<open>The run on the sample platform returns.\<close>

lemma sample_run_returns:
  "fst (run_try (sample_platform sample_archive r) ''https://spacecat.example/z.zip'' empty_world)
     = Inr ()"
  by (simp add: run_try_def createTempDirectory_def fetchZip_def extractZip_def
      ZIP_NAME_def CONTENT_DIR_NAME_def sample_url
      sample_archive_def empty_world_def emit_def note_zip_eq write_entry_def
      report_progress_def start_scan_def initial_state_def sample_names Let_def)

lemma sample_not_killed:
  "\<not> run_killed (sample_platform sample_archive r) ''https://spacecat.example/z.zip'' empty_world"
  by (simp add: run_killed_def sample_run_returns)

text \<open>
  C7. A download address without the marker \<open>spacecat\<close> is rejected: the run only
  reports the error \<open>Invalid download url\<close>, and \<open>fetch\<close> is not called.
\<close>

theorem run_rejects_unmarked_url:
  assumes "\<not> includes_str downloadUrl ''spacecat''"
  shows "run pf downloadUrl w =
           emit [Warning (ErrorMessage (InvalidDownloadUrl downloadUrl)),
                 SetOutput ''error_message'' (OutError (InvalidDownloadUrl downloadUrl))] w
     \<and> \<not> list_ex fetch_call (effects_of w (run pf downloadUrl w))"
  using assms by (simp add: run_def run_try_def cleanup_def effects_of_def)

theorem run_rejects_unmarked_url_witness:
  "\<not> includes_str ''https://example.com/import.zip'' ''spacecat''
   \<and> run (sample_platform sample_archive False) ''https://example.com/import.zip'' empty_world =
       emit [Warning (ErrorMessage (InvalidDownloadUrl ''https://example.com/import.zip'')),
             SetOutput ''error_message''
               (OutError (InvalidDownloadUrl ''https://example.com/import.zip''))] empty_world
   \<and> \<not> list_ex fetch_call (effects_of empty_world
          (run (sample_platform sample_archive False) ''https://example.com/import.zip''
             empty_world))"
proof -
  have h: "\<not> includes_str ''https://example.com/import.zip'' ''spacecat''"
    by (rule sample_url)
  note r = run_rejects_unmarked_url[OF h, of "sample_platform sample_archive False" empty_world]
  show ?thesis by (rule conjI[OF h r])
qed

text \<open>
  C4, as the code has it. The archive is downloaded to the path that \<open>path.join\<close> gives
  for \<open>import.zip\<close> in the temporary directory; that path is not empty, and the
  directory being new, no file has it before the run. For every run that comes to its
  \<open>finally\<close> block, whatever stage it failed at or whether it succeeded, and every run
  comes to it unless the stream of an entry ends the process: when removing
  the archive does not fail, the archive is not on disk at the end of the run; when
  removing it fails and the archive is on disk, the run ends with the world as it was
  before the removal and the one message that the archive could not be deleted, so the
  archive stays. The archive is on disk from the moment the download has written it.
  No directory is ever removed, and the \<open>contents\<close> directory, once made, is there at
  the end.
\<close>

theorem run_removes_archive:
  assumes "zip_destination pf = Some z" and "truthy z" and "z \<notin> files w"
    and "\<not> run_killed pf downloadUrl w"
  shows "(\<not> unlink_fails pf z \<longrightarrow> z \<notin> files (run pf downloadUrl w))
     \<and> (unlink_fails pf z \<and> z \<in> files (before_cleanup pf downloadUrl w) \<longrightarrow>
          run pf downloadUrl w =
            emit [Info (CouldNotDelete z)] (before_cleanup pf downloadUrl w))
     \<and> dirs w \<subseteq> dirs (run pf downloadUrl w)
     \<and> (\<forall>tempDir. includes_str downloadUrl ''spacecat'' \<and> url_valid pf downloadUrl
            \<and> fst (createTempDirectory pf w) = Inr tempDir
          \<longrightarrow> path_join pf tempDir CONTENT_DIR_NAME \<in> dirs (run pf downloadUrl w)
            \<and> (\<forall>response. fetch pf downloadUrl = Some response \<and> ok response
                   \<and> \<not> write_fails pf z
                 \<longrightarrow> z \<in> files (before_cleanup pf downloadUrl w)))"
proof -
  note r = run_unfold[of pf downloadUrl w]
  note dest = run_try_destination[of pf downloadUrl w]
  have a: "\<not> unlink_fails pf z \<longrightarrow> z \<notin> files (run pf downloadUrl w)"
    using dest assms by (auto simp: r cleanup_def)
  have b: "unlink_fails pf z \<and> z \<in> files (before_cleanup pf downloadUrl w) \<longrightarrow>
          run pf downloadUrl w =
            emit [Info (CouldNotDelete z)] (before_cleanup pf downloadUrl w)"
    using dest assms by (auto simp: r cleanup_def unlink_quietly_def)
  have c: "dirs w \<subseteq> dirs (run pf downloadUrl w)"
    unfolding run_dirs by (rule run_try_dirs)
  have d: "path_join pf tempDir CONTENT_DIR_NAME \<in> dirs (run pf downloadUrl w)
            \<and> (\<forall>response. fetch pf downloadUrl = Some response \<and> ok response
                   \<and> \<not> write_fails pf z
                 \<longrightarrow> z \<in> files (before_cleanup pf downloadUrl w))"
    if h: "includes_str downloadUrl ''spacecat'' \<and> url_valid pf downloadUrl
            \<and> fst (createTempDirectory pf w) = Inr tempDir" for tempDir
  proof -
    have i: "includes_str downloadUrl ''spacecat''" and v: "url_valid pf downloadUrl"
      and t: "fst (createTempDirectory pf w) = Inr tempDir"
      using h by simp_all
    have z: "z = path_join pf tempDir ZIP_NAME"
      using createTempDirectory_made(1)[OF t] assms(1) by (simp add: zip_destination_def)
    have d1: "path_join pf tempDir CONTENT_DIR_NAME \<in> dirs (run pf downloadUrl w)"
      unfolding run_dirs by (rule run_try_contents[OF i v t])
    have d2: "z \<in> files (before_cleanup pf downloadUrl w)"
      if f: "fetch pf downloadUrl = Some response \<and> ok response \<and> \<not> write_fails pf z"
      for response
    proof -
      have "path_join pf tempDir ZIP_NAME \<in> files (snd (snd (run_try pf downloadUrl w)))"
        using f by (intro run_try_archive[OF i v t, of response]) (simp_all add: z)
      then show ?thesis by (simp add: z)
    qed
    show ?thesis using d1 d2 by blast
  qed
  show ?thesis using a b c d by blast
qed

theorem run_removes_archive_witness:
  "zip_destination (sample_platform sample_archive False) = Some ''/tmp/sta-Ab12Cd/import.zip''
   \<and> truthy ''/tmp/sta-Ab12Cd/import.zip''
   \<and> ''/tmp/sta-Ab12Cd/import.zip'' \<notin> files empty_world
   \<and> \<not> run_killed (sample_platform sample_archive False) ''https://spacecat.example/z.zip''
          empty_world
   \<and> \<not> unlink_fails (sample_platform sample_archive False) ''/tmp/sta-Ab12Cd/import.zip''
   \<and> ''/tmp/sta-Ab12Cd/import.zip''
        \<notin> files (run (sample_platform sample_archive False) ''https://spacecat.example/z.zip''
                   empty_world)
   \<and> ''/tmp/sta-Ab12Cd/contents''
        \<in> dirs (run (sample_platform sample_archive False) ''https://spacecat.example/z.zip''
                  empty_world)
   \<and> unlink_fails (sample_platform sample_archive True) ''/tmp/sta-Ab12Cd/import.zip''
   \<and> run (sample_platform sample_archive True) ''https://spacecat.example/z.zip'' empty_world =
       emit [Info (CouldNotDelete ''/tmp/sta-Ab12Cd/import.zip'')]
         (before_cleanup (sample_platform sample_archive True) ''https://spacecat.example/z.zip''
            empty_world)"
proof -
  have h1: "zip_destination (sample_platform sample_archive r)
              = Some ''/tmp/sta-Ab12Cd/import.zip''" for r
    by (simp add: zip_destination_def ZIP_NAME_def)
  have h2: "truthy ''/tmp/sta-Ab12Cd/import.zip''" by (simp add: truthy_def)
  have h3: "''/tmp/sta-Ab12Cd/import.zip'' \<notin> files empty_world"
    by (simp add: empty_world_def)
  have h4: "\<not> run_killed (sample_platform sample_archive r) ''https://spacecat.example/z.zip''
          empty_world" for r
    by (rule sample_not_killed)
  have h5: "\<not> unlink_fails (sample_platform sample_archive False) ''/tmp/sta-Ab12Cd/import.zip''"
    by simp
  have h6: "unlink_fails (sample_platform sample_archive True) ''/tmp/sta-Ab12Cd/import.zip''"
    by simp
  have u: "includes_str ''https://spacecat.example/z.zip'' ''spacecat''
           \<and> url_valid (sample_platform sample_archive r) ''https://spacecat.example/z.zip''
           \<and> fst (createTempDirectory (sample_platform sample_archive r) empty_world)
                = Inr ''/tmp/sta-Ab12Cd''" for r
    by (simp add: sample_url createTempDirectory_def Let_def)
  have f: "fetch (sample_platform sample_archive True) ''https://spacecat.example/z.zip''
             = Some \<lparr>ok = True, status = 200, statusText = ''OK'', body_complete = True\<rparr>
           \<and> ok \<lparr>ok = True, status = 200, statusText = ''OK'', body_complete = True\<rparr>
           \<and> \<not> write_fails (sample_platform sample_archive True) ''/tmp/sta-Ab12Cd/import.zip''"
    by simp
  note r = run_removes_archive[OF h1 h2 h3 h4, of False]
  note s = run_removes_archive[OF h1 h2 h3 h4, of True]
  have c1: "''/tmp/sta-Ab12Cd/import.zip''
        \<notin> files (run (sample_platform sample_archive False) ''https://spacecat.example/z.zip''
                   empty_world)"
    by (rule mp[OF conjunct1[OF r] h5])
  have c2: "path_join (sample_platform sample_archive False) ''/tmp/sta-Ab12Cd'' CONTENT_DIR_NAME
        \<in> dirs (run (sample_platform sample_archive False) ''https://spacecat.example/z.zip''
                  empty_world)"
    by (rule conjunct1[OF mp[OF spec[OF conjunct2[OF conjunct2[OF conjunct2[OF r]]]] u]])
  have c2': "''/tmp/sta-Ab12Cd/contents''
        \<in> dirs (run (sample_platform sample_archive False) ''https://spacecat.example/z.zip''
                  empty_world)"
    using c2 by (simp add: CONTENT_DIR_NAME_def)
  have c3: "''/tmp/sta-Ab12Cd/import.zip''
        \<in> files (before_cleanup (sample_platform sample_archive True)
                   ''https://spacecat.example/z.zip'' empty_world)"
    by (rule mp[OF spec[OF conjunct2[OF mp[OF spec[OF conjunct2[OF conjunct2[OF conjunct2[OF s]]]] u]]] f])
  have c4: "run (sample_platform sample_archive True) ''https://spacecat.example/z.zip'' empty_world =
       emit [Info (CouldNotDelete ''/tmp/sta-Ab12Cd/import.zip'')]
         (before_cleanup (sample_platform sample_archive True) ''https://spacecat.example/z.zip''
            empty_world)"
    by (rule mp[OF conjunct1[OF conjunct2[OF s]] conjI[OF h6 c3]])
  show ?thesis
    by (rule conjI[OF h1 conjI[OF h2 conjI[OF h3 conjI[OF h4 conjI[OF h5
          conjI[OF c1 conjI[OF c2' conjI[OF h6 c4]]]]]]]])
qed

text \<open>
  The claim as the specification states it fails where \<open>fs.unlinkSync\<close> throws: the
  \<open>catch\<close> of lines 199 to 201 logs it and the archive stays on disk.
\<close>

theorem run_leaves_archive:
  "''/tmp/sta-Ab12Cd/import.zip''
     \<in> files (run (sample_platform sample_archive True) ''https://spacecat.example/z.zip'' empty_world)"
  by (simp add: run_def run_try_def cleanup_def createTempDirectory_def fetchZip_def extractZip_def
      unlink_quietly_def truthy_def ZIP_NAME_def CONTENT_DIR_NAME_def sample_url
      sample_archive_def empty_world_def emit_def note_zip_eq write_entry_def
      report_progress_def start_scan_def initial_state_def sample_names Let_def)

text \<open>
  A run that does not come to its \<open>finally\<close> block: where the stream of an entry fails,
  the process ends inside the loop. Nothing is caught, nothing is removed, and nothing
  is left to the event loop.
\<close>

lemma killed_run_stops:
  assumes "run_killed pf downloadUrl w"
  shows "run pf downloadUrl w = snd (snd (run_try pf downloadUrl w))"
    and "sta_import_zip pf downloadUrl w = run pf downloadUrl w"
  using assms by (simp_all add: run_unfold sta_import_zip_def)

lemma killed_run_sample:
  "run_killed broken_stream_platform ''https://spacecat.example/z.zip'' empty_world"
  "''/tmp/sta-Ab12Cd/import.zip''
     \<in> files (run broken_stream_platform ''https://spacecat.example/z.zip'' empty_world)"
  "log (run broken_stream_platform ''https://spacecat.example/z.zip'' empty_world) =
     [Info (TempDirCreated ''/tmp/sta-Ab12Cd'' ''/tmp/sta-Ab12Cd/contents''),
      FetchCall ''https://spacecat.example/z.zip'',
      Info (Downloaded ''/tmp/sta-Ab12Cd/import.zip'' 5),
      Info (ExtractionProgress 20 1 5),
      SetOutput ''xwalk_zip'' (OutString ''a.zip''),
      Info (CpZip ''a.zip'')]"
  by (simp_all add: run_killed_def run_def run_try_def cleanup_def createTempDirectory_def
      fetchZip_def extractZip_def broken_stream_platform_def
      unlink_quietly_def truthy_def ZIP_NAME_def CONTENT_DIR_NAME_def sample_url
      sample_archive_def empty_world_def emit_def note_zip_eq write_entry_def
      report_progress_def start_scan_def initial_state_def sample_names Let_def)







section \<open>The mountpoint without a sites segment\<close>

lemma getMountpointData_without_sites:
  assumes "parse_url rootMountpoint = Some u"
    and "\<not> includes_str (pathname u) ''/sites/''"
  shows "getMountpointData parse_url rootMountpoint ''sharepoint'' = Inl SplitOfUndefined"
  using assms
  by (simp add: getMountpointData_def split_str_def split_from_no_separator)

lemma run_mountpoint_without_sites:
  assumes "test_ignore_case ''sharepoint'' rootEntry"
    and "parse_url rootEntry = Some u"
    and "\<not> includes_str (pathname u) ''/sites/''"
  shows "run_mountpoint parse_url ''sharepoint'' rootEntry =
     [MpInfo (MountpointProvided rootEntry),
      MpSetOutput ''mountpoint'' (MpString rootEntry),
      MpSetOutput ''type'' (MpString ''sharepoint''),
      MpInfo (TypeFound ''sharepoint''),
      MpWarning SplitOfUndefined,
      MpSetOutput ''error_message'' (MpError SplitOfUndefined)]"
  using assms(1) getMountpointData_without_sites[of parse_url rootEntry u, OF assms(2,3)]
  by (simp add: run_mountpoint_def mountpoint_try_def find_type_def)

text \<open>
  C2, where the code departs from the claim. For the SharePoint address
  \<open>https://adobe.sharepoint.com/documents/import\<close>, whose path has no \<open>/sites/\<close>, the
  run sets the outputs \<open>mountpoint\<close> and \<open>type\<close>, then fails on the \<open>split\<close> of
  \<open>undefined\<close> at line 30: the error reported is that \<open>TypeError\<close>, not the format
  error of line 36, which is never reached. The output \<open>data\<close> is not set.
\<close>

theorem run_mountpoint_type_error:
  "run_mountpoint sample_parse_url ''sharepoint'' ''https://adobe.sharepoint.com/documents/import'' =
     [MpInfo (MountpointProvided ''https://adobe.sharepoint.com/documents/import''),
      MpSetOutput ''mountpoint'' (MpString ''https://adobe.sharepoint.com/documents/import''),
      MpSetOutput ''type'' (MpString ''sharepoint''),
      MpInfo (TypeFound ''sharepoint''),
      MpWarning SplitOfUndefined,
      MpSetOutput ''error_message'' (MpError SplitOfUndefined)]"
proof -
  have a: "test_ignore_case ''sharepoint'' ''https://adobe.sharepoint.com/documents/import''"
    by code_simp
  have b: "sample_parse_url ''https://adobe.sharepoint.com/documents/import''
             = Some \<lparr>host = ''adobe.sharepoint.com'', pathname = ''/documents/import''\<rparr>"
    by (simp add: sample_parse_url_def)
  have c: "\<not> includes_str (pathname \<lparr>host = ''adobe.sharepoint.com'', pathname = ''/documents/import''\<rparr>) ''/sites/''"
    by simp
  show ?thesis
    by (rule run_mountpoint_without_sites[of _ sample_parse_url
          "\<lparr>host = ''adobe.sharepoint.com'', pathname = ''/documents/import''\<rparr>", OF a b c])
qed

text \<open>
  With a \<open>/sites/\<close> segment and nothing after the site name, line 36 is reached and the
  format error is the one reported.
\<close>

lemma run_mountpoint_format_error:
  "run_mountpoint sample_parse_url ''sharepoint'' ''https://adobe.sharepoint.com/sites/foo'' =
     [MpInfo (MountpointProvided ''https://adobe.sharepoint.com/sites/foo''),
      MpSetOutput ''mountpoint'' (MpString ''https://adobe.sharepoint.com/sites/foo''),
      MpSetOutput ''type'' (MpString ''sharepoint''),
      MpInfo (TypeFound ''sharepoint''),
      MpWarning NotExpectedFormat,
      MpSetOutput ''error_message'' (MpError NotExpectedFormat)]"
proof -
  have a: "find_type ''https://adobe.sharepoint.com/sites/foo'' = Inr ''sharepoint''"
    by code_simp
  have b: "getMountpointData sample_parse_url ''https://adobe.sharepoint.com/sites/foo'' ''sharepoint''
             = Inl NotExpectedFormat"
    by (simp add: getMountpointData_def sample_parse_url_def split_str_def truthy_def)
  show ?thesis by (simp add: run_mountpoint_def mountpoint_try_def a b)
qed

section \<open>The echo of the upload command\<close>

lemma mask_arg_other:
  "arg \<noteq> token \<Longrightarrow> mask_arg token (i, arg) = arg @ suffixArray ! (i mod length suffixArray)"
  by (simp add: mask_arg_def)

lemma mask_arg_token: "mask_arg token (i, token) = ''***\<newline>>  ''"
  by (simp add: mask_arg_def)

text \<open>
  C8, as the code has it. When the token differs from every other argument, the echo is
  the text below, in which the token is replaced by \<open>***\<close>: the echo does not depend on
  the token. The token can then be read in the echo only where its text also occurs in
  the rest of the echo.
\<close>

theorem command_echo_masked:
  assumes "token \<notin> set [''@adobe/aem-import-helper'', ''aem'', ''upload'', ''--zip'',
             xwalkZipPath, ''--asset-mapping'', assetMappingPath, ''--target'', target,
             ''--token'', ''--skip-assets'']"
  shows "command_echo xwalkZipPath assetMappingPath target token skipAssets =
           ''> npx @adobe/aem-import-helper aem upload\<newline>>   --zip '' @ xwalkZipPath
           @ ''\<newline>>   --asset-mapping '' @ assetMappingPath
           @ ''\<newline>>   --target '' @ target
           @ ''\<newline>>   --token ***\<newline>>  ''
           @ (if skipAssets then '' --skip-assets\<newline>>  '' else [])"
proof -
  have ne: "''@adobe/aem-import-helper'' \<noteq> token" "''aem'' \<noteq> token" "''upload'' \<noteq> token"
    "''--zip'' \<noteq> token" "xwalkZipPath \<noteq> token" "''--asset-mapping'' \<noteq> token"
    "assetMappingPath \<noteq> token" "''--target'' \<noteq> token" "target \<noteq> token"
    "''--token'' \<noteq> token" "''--skip-assets'' \<noteq> token"
    using assms by auto
  have m: "maskedArgs (upload_args xwalkZipPath assetMappingPath target token skipAssets) token =
    [''@adobe/aem-import-helper'', ''aem'', ''upload\<newline>>  '', ''--zip'', xwalkZipPath @ ''\<newline>>  '',
     ''--asset-mapping'', assetMappingPath @ ''\<newline>>  '', ''--target'', target @ ''\<newline>>  '',
     ''--token'', ''***\<newline>>  '']
    @ (if skipAssets then [''--skip-assets\<newline>>  ''] else [])"
    using ne
    by (simp add: maskedArgs_def upload_args_def mask_arg_other mask_arg_token suffixArray_def
        enumerate_eq_zip upt_rec[of 0] upt_rec[of 1] upt_rec[of 2] upt_rec[of 3] upt_rec[of 4]
        upt_rec[of 5] upt_rec[of 6] upt_rec[of 7] upt_rec[of 8] upt_rec[of 9] upt_rec[of 10]
        upt_rec[of 11] upt_rec[of 12])
  show ?thesis by (simp add: command_echo_def m)
qed

theorem command_echo_masked_witness:
  "''eyJhbGciOiJSUzI1NiJ9'' \<notin> set [''@adobe/aem-import-helper'', ''aem'', ''upload'', ''--zip'',
       ''/tmp/x/xwalk-index.zip'', ''--asset-mapping'', ''/tmp/x/asset-mapping.json'',
       ''--target'', ''https://author.example/'', ''--token'', ''--skip-assets'']
   \<and> command_echo ''/tmp/x/xwalk-index.zip'' ''/tmp/x/asset-mapping.json''
         ''https://author.example/'' ''eyJhbGciOiJSUzI1NiJ9'' True =
       ''> npx @adobe/aem-import-helper aem upload\<newline>>   --zip /tmp/x/xwalk-index.zip\<newline>>   --asset-mapping /tmp/x/asset-mapping.json\<newline>>   --target https://author.example/\<newline>>   --token ***\<newline>>   --skip-assets\<newline>>  ''"
proof -
  have h: "''eyJhbGciOiJSUzI1NiJ9'' \<notin> set [''@adobe/aem-import-helper'', ''aem'', ''upload'',
       ''--zip'', ''/tmp/x/xwalk-index.zip'', ''--asset-mapping'', ''/tmp/x/asset-mapping.json'',
       ''--target'', ''https://author.example/'', ''--token'', ''--skip-assets'']"
    by simp
  from command_echo_masked[OF h, of True] h show ?thesis by simp
qed

text \<open>
  The claim as the specification states it fails for the token \<open>aem\<close>: the argument
  \<open>aem\<close> and the token are both masked, and the package name
  \<open>@adobe/aem-import-helper\<close> still shows the token's text.
\<close>

theorem command_echo_shows_token:
  "includes_str
     (command_echo ''/tmp/x/xwalk-index.zip'' ''/tmp/x/asset-mapping.json''
        ''https://author.example/'' ''aem'' False)
     ''aem''"
  by (simp add: command_echo_def maskedArgs_def upload_args_def mask_arg_def suffixArray_def)

end
